theory Spec2Isabelle
  imports Main "HOL-Library.Word" "HOL-Library.Multiset"
begin

section \<open>Data model of \<open>mempoolcomponent_net.cpp\<close>\<close>

text \<open>
  The file under verification is the network side of the mempool component: the
  existence oracle \<open>DoesTxExist\<close>, the fetch handler \<open>NetRequestTxData\<close>, the ingress
  pipeline \<open>NetReceiveTxData\<close> and the egress pipeline \<open>NetRequestTxInventory\<close>.
  Everything the file only calls (transaction validation, the orphan manager, the
  network component, the chain view, the argument manager) lives in headers that are
  not part of the sources; those parts are either parameters of the model (record
  \<open>env\<close>) or small definitions marked as modelled from the specification.
\<close>

type_synonym uint256 = "256 word"
type_synonym NodeId = int

record COutPoint =
  op_hash :: uint256
  op_n :: "32 word"

record CTxIn =
  prevout :: COutPoint

text \<open>
  A transaction as far as this file looks at it: its hash, its inputs, its outputs
  (only their number is used), whether it carries witness data and the value of
  \<open>RecursiveDynamicUsage\<close>.
\<close>

record CTransaction =
  GetHash :: uint256
  vin :: "CTxIn list"
  vout :: "int list"
  HasWitness :: bool
  RecursiveDynamicUsage :: nat

text \<open>
  Modelled from the spec: \<open>CValidationState\<close> (its declaration is in a header outside
  the sources). The specification describes the validator's answer as
  \<open>Invalid(state, dos_score)\<close> where the state may carry a \<open>corruption_possible\<close> flag, and
  a reject code and reason. A default-constructed state is valid, with score 0, code 0
  and no corruption flag.
\<close>

datatype mode_state = MODE_VALID | MODE_INVALID | MODE_ERROR

record CValidationState =
  mode :: mode_state
  nDoS :: int
  GetRejectCode :: int
  GetRejectReason :: string
  CorruptionPossible :: bool

definition fresh_state :: CValidationState where
  "fresh_state = \<lparr>mode = MODE_VALID, nDoS = 0, GetRejectCode = 0, GetRejectReason = [],
     CorruptionPossible = False\<rparr>"

definition IsInvalid :: "CValidationState \<Rightarrow> bool" where
  "IsInvalid st = (mode st = MODE_INVALID)"

text \<open>
  Modelled from the spec: the mempool container. The file reads it through \<open>exists\<close>,
  \<open>info\<close> and \<open>infoAll\<close>; an entry is \<open>{tx, time, fee_rate}\<close>. The pool is the list
  \<open>infoAll\<close> returns.
\<close>

record TxMempoolInfo =
  tx :: CTransaction
  nTime :: int
  GetFeePerK :: int

type_synonym mempool = "TxMempoolInfo list"

definition info :: "mempool \<Rightarrow> uint256 \<Rightarrow> TxMempoolInfo option" where
  "info mp h = find (\<lambda>e. GetHash (tx e) = h) mp"

definition mempool_exists :: "mempool \<Rightarrow> uint256 \<Rightarrow> bool" where
  "mempool_exists mp h = (info mp h \<noteq> None)"

text \<open>
  Modelled from the spec: the orphan manager (section 4.3). An orphan entry is
  \<open>{tx, from_peer, added_at}\<close>; the pool is keyed by txid; \<open>find_children\<close> of an outpoint
  gives the orphans that have it as an input; \<open>add\<close> is a no-op returning false when the
  txid is present; \<open>erase\<close> returns 1 if removed and 0 otherwise. The random eviction of
  \<open>limit\<close> is a parameter of the model (see \<open>env\<close>).
\<close>

record COrphanTx =
  otx :: CTransaction
  fromPeer :: NodeId
  nTimeExpire :: int

type_synonym orphans = "COrphanTx list"

definition orphan_Exists :: "orphans \<Rightarrow> uint256 \<Rightarrow> bool" where
  "orphan_Exists pool h = (\<exists>x \<in> set pool. GetHash (otx x) = h)"

definition FindOrphanTransactionsByPrev :: "orphans \<Rightarrow> COutPoint \<Rightarrow> COrphanTx list" where
  "FindOrphanTransactionsByPrev pool outp =
     filter (\<lambda>x. outp \<in> set (map prevout (vin (otx x)))) pool"

definition EraseOrphanTx :: "orphans \<Rightarrow> uint256 \<Rightarrow> nat \<times> orphans" where
  "EraseOrphanTx pool h =
     (if orphan_Exists pool h
      then (1, filter (\<lambda>x. GetHash (otx x) \<noteq> h) pool)
      else (0, pool))"

definition AddOrphanTx :: "orphans \<Rightarrow> CTransaction \<Rightarrow> NodeId \<Rightarrow> int \<Rightarrow> bool \<times> orphans" where
  "AddOrphanTx pool t peer now =
     (if orphan_Exists pool (GetHash t) then (False, pool)
      else (True, pool @ [\<lparr>otx = t, fromPeer = peer, nTimeExpire = now\<rparr>]))"

subsection \<open>Peer context, configuration, collaborators\<close>

text \<open>
  Modelled from the spec: the flag words of \<open>ExNode\<close>. The bit constants
  (\<open>NF_RELAYTX\<close>, \<open>NF_WHITELIST\<close>, \<open>NF_WITNESS\<close>, \<open>NF_NEWTRANSACTION\<close>, \<open>NODE_WITNESS\<close>)
  and the macros \<open>IsFlagsBitOn\<close> and \<open>SetFlagsBit\<close> are declared outside the sources; a
  flag word is the set of the bits that are on.
\<close>

datatype node_flag = NF_RELAYTX | NF_WHITELIST | NF_WITNESS | NF_NEWTRANSACTION

datatype service_flag = NODE_NETWORK | NODE_WITNESS

definition IsFlagsBitOn :: "'a set \<Rightarrow> 'a \<Rightarrow> bool" where
  "IsFlagsBitOn fl b = (b \<in> fl)"

definition SetFlagsBit :: "'a set \<Rightarrow> 'a \<Rightarrow> 'a set" where
  "SetFlagsBit fl b = insert b fl"

record ExNode =
  nodeID :: NodeId
  flags :: "node_flag set"
  nLocalServices :: "service_flag set"
  sendVersion :: int
  nMisbehavior :: int
  retFlags :: "node_flag set"

text \<open>
  Constants of the wire protocol that the file uses and other headers define.
  \<open>MAX_INV_SZ\<close> is given by the specification (50,000); the others have the values of
  the Bitcoin protocol headers the repository derives from.
\<close>

definition SERIALIZE_TRANSACTION_NO_WITNESS :: int where
  "SERIALIZE_TRANSACTION_NO_WITNESS = 0x40000000"

definition MSG_WITNESS_FLAG :: int where
  "MSG_WITNESS_FLAG = 0x40000000"

definition MAX_INV_SZ :: nat where
  "MAX_INV_SZ = 50000"

text \<open>
  Calls on the collaborators, in program order. The network component, the
  compact-block extra pool and the mempool's consistency check have no state this
  file can read back, so a call is modelled by its entry in the log. Calls of
  \<open>AcceptToMemoryPool\<close> and of \<open>recentRejects->insert\<close> are logged as well (their
  effect on the state is modelled besides).
\<close>

datatype event =
    SendTX NodeId int int CTransaction
  | SendREJECT NodeId int int string uint256
  | SendINV NodeId int "uint256 list"
  | BroadcastTransaction uint256
  | MisbehaveNode NodeId int
  | AskForTransaction NodeId uint256 int
  | AddTxInventoryKnown NodeId uint256 int
  | AddToCompactExtraTransactions CTransaction
  | MempoolCheck
  | CallAcceptToMemoryPool CTransaction
  | RecentRejectsInsert uint256

text \<open>
  The file-level globals (\<open>recentRejects\<close>, \<open>hashRecentRejectsChainTip\<close>, \<open>mapRelay\<close>,
  \<open>vRelayExpiration\<close>) together with the two members of the component the file works
  on (\<open>mempool\<close>, \<open>orphanTxMgr\<close>) and the log of calls.

  \<open>recentRejects\<close> is a \<open>unique_ptr\<close>: \<open>None\<close> is the null pointer it holds before
  \<open>InitializeForNet\<close>. Modelled from the spec: the rolling bloom filter behind it
  (class \<open>CRollingBloomFilter\<close>, outside the sources) is the set of the txids inserted
  since the last reset; false positives and the roll-over after 120,000 insertions are
  not modelled.
\<close>

record node =
  recentRejects :: "uint256 set option"
  hashRecentRejectsChainTip :: uint256
  mapRelay :: "uint256 \<rightharpoonup> CTransaction"
  vRelayExpiration :: "(int \<times> uint256) list"
  pool :: mempool
  orphanTxMgr :: orphans
  calls :: "event list"

definition emit :: "event list \<Rightarrow> node \<Rightarrow> node" where
  "emit es s = s\<lparr>calls := calls s @ es\<rparr>"

definition InitializeForNet :: "node \<Rightarrow> node" where
  "InitializeForNet s = s\<lparr>recentRejects := Some {}\<rparr>"

text \<open>The answer of \<open>AcceptToMemoryPool\<close>: its return value, its out-parameters and the
  mempool it leaves behind.\<close>

record atmp_result =
  accepted :: bool
  fMissingInputs :: bool
  vstate :: CValidationState
  removedTxn :: "CTransaction list"
  newpool :: mempool

text \<open>
  What the file takes from outside: the validator, the active chain's tip, the UTXO
  cache (\<open>GetCoinsTip\<close> may return null), the arguments \<open>-whitelistrelay\<close>,
  \<open>-whitelistforcerelay\<close> and \<open>-maxorphantx\<close>, the clock and the orphan manager's random
  eviction \<open>LimitOrphanTxSize\<close> (it returns the number evicted and the pool left).
\<close>

record env =
  AcceptToMemoryPool :: "mempool \<Rightarrow> CTransaction \<Rightarrow> atmp_result"
  tipBlockHash :: uint256
  coinsTip :: "(COutPoint \<Rightarrow> bool) option"
  whitelistrelay :: bool
  whitelistforcerelay :: bool
  maxorphantx :: "32 word"
  REJECT_INTERNAL :: int
  MAX_REJECT_MESSAGE_LENGTH :: nat
  GetTime :: int
  LimitOrphanTxSize :: "orphans \<Rightarrow> nat \<Rightarrow> nat \<times> orphans"

section \<open>The existence oracle\<close>

text \<open>
  \<open>DoesTxExist\<close>. Its first block (lines 71 to 86) is \<open>query_rejects\<close>: when the filter
  exists and the tip moved, the filter is reset and the new tip stored (and the filter
  is not queried); otherwise a hit in the filter answers true. Then the mempool, the
  orphan pool, and outputs 0 and 1 in the UTXO cache.
\<close>

definition query_rejects :: "env \<Rightarrow> node \<Rightarrow> uint256 \<Rightarrow> bool \<times> node" where
  "query_rejects e s txHash =
     (case recentRejects s of
        None \<Rightarrow> (False, s)
      | Some rr \<Rightarrow>
          if tipBlockHash e \<noteq> hashRecentRejectsChainTip s
          then (False, s\<lparr>hashRecentRejectsChainTip := tipBlockHash e,
                          recentRejects := Some {}\<rparr>)
          else (txHash \<in> rr, s))"

definition DoesTxExist :: "env \<Rightarrow> node \<Rightarrow> uint256 \<Rightarrow> bool \<times> node" where
  "DoesTxExist e s txHash =
     (case query_rejects e s txHash of
        (hit, s1) \<Rightarrow>
          if hit then (True, s1)
          else if mempool_exists (pool s1) txHash \<or> orphan_Exists (orphanTxMgr s1) txHash
          then (True, s1)
          else (case coinsTip e of
                  Some HaveCoinInCache \<Rightarrow>
                    (HaveCoinInCache \<lparr>op_hash = txHash, op_n = 0\<rparr> \<or>
                     HaveCoinInCache \<lparr>op_hash = txHash, op_n = 1\<rparr>, s1)
                | None \<Rightarrow> (False, s1)))"

section \<open>Serving a fetch request\<close>

definition NetRequestTxData :: "node \<Rightarrow> ExNode \<Rightarrow> uint256 \<Rightarrow> bool \<Rightarrow> int \<Rightarrow> bool \<times> node" where
  "NetRequestTxData s xnode txHash witness timeLastMempoolReq =
     (let nSendFlags = (if witness then 0 else SERIALIZE_TRANSACTION_NO_WITNESS)
      in case mapRelay s txHash of
           Some t \<Rightarrow>
             (True, emit [SendTX (nodeID xnode) (sendVersion xnode) nSendFlags t] s)
         | None \<Rightarrow>
             (case info (pool s) txHash of
                Some txinfo \<Rightarrow>
                  if nTime txinfo \<le> timeLastMempoolReq
                  then (True, emit [SendTX (nodeID xnode) (sendVersion xnode) nSendFlags
                                      (tx txinfo)] s)
                  else (False, s)
              | None \<Rightarrow> (False, s)))"

section \<open>The ingress pipeline\<close>

text \<open>
  A run of the ingress function ends in one of three ways: it returns, it stops at a
  failed \<open>assert(recentRejects)\<close> (or at the dereference of the null \<open>recentRejects\<close>,
  which crashes alike), or the model's fuel for the work-queue loop is used up.
\<close>

datatype 'a outcome = Returned 'a | Abort | OutOfFuel

text \<open>The locals of \<open>NetReceiveTxData\<close> that the orphan loops update.\<close>

record locals =
  vWorkQueue :: "COutPoint list"
  vEraseQueue :: "uint256 list"
  lRemovedTxn :: "CTransaction list"
  setMisbehaving :: "NodeId set"

text \<open>The outpoints \<open>(hash, 0), ..., (hash, vout.size() - 1)\<close> that are appended to the
  work queue when a transaction is accepted.\<close>

definition outpoints_of :: "CTransaction \<Rightarrow> COutPoint list" where
  "outpoints_of t =
     map (\<lambda>i. \<lparr>op_hash = GetHash t, op_n = of_nat i\<rparr>) [0..<length (vout t)]"

text \<open>
  The body of the inner \<open>for\<close> loop (lines 187 to 235), for one orphan \<open>mi\<close> found
  under the outpoint at the front of the work queue.
\<close>

definition process_orphan :: "env \<Rightarrow> COrphanTx \<Rightarrow> node \<times> locals \<Rightarrow> (node \<times> locals) outcome" where
  "process_orphan e mi sl =
     (let (s, l) = sl;
          orphanTx = otx mi;
          orphanHash = GetHash orphanTx
      in if fromPeer mi \<in> setMisbehaving l then Returned (s, l)
         else
           let r = AcceptToMemoryPool e (pool s) orphanTx;
               stateDummy = vstate r;
               s1 = emit [CallAcceptToMemoryPool orphanTx] (s\<lparr>pool := newpool r\<rparr>);
               l1 = l\<lparr>lRemovedTxn := lRemovedTxn l @ removedTxn r\<rparr>
           in if accepted r then
                Returned
                  (emit [BroadcastTransaction orphanHash, MempoolCheck] s1,
                   l1\<lparr>vWorkQueue := vWorkQueue l1 @ outpoints_of orphanTx,
                      vEraseQueue := vEraseQueue l1 @ [orphanHash]\<rparr>)
              else if \<not> fMissingInputs r then
                (let punish = (IsInvalid stateDummy \<and> nDoS stateDummy > 0);
                     s2 = (if punish
                           then emit [MisbehaveNode (fromPeer mi) (nDoS stateDummy)] s1
                           else s1);
                     l2 = (if punish
                           then l1\<lparr>setMisbehaving := insert (fromPeer mi) (setMisbehaving l1)\<rparr>
                           else l1);
                     l3 = l2\<lparr>vEraseQueue := vEraseQueue l2 @ [orphanHash]\<rparr>
                 in if \<not> HasWitness orphanTx \<and> \<not> CorruptionPossible stateDummy then
                      (case recentRejects s2 of
                         None \<Rightarrow> Abort
                       | Some rr \<Rightarrow>
                           Returned
                             (emit [RecentRejectsInsert orphanHash, MempoolCheck]
                                (s2\<lparr>recentRejects := Some (insert orphanHash rr)\<rparr>), l3))
                    else Returned (emit [MempoolCheck] s2, l3))
              else Returned (emit [MempoolCheck] s1, l1))"

fun for_orphans :: "env \<Rightarrow> COrphanTx list \<Rightarrow> node \<times> locals \<Rightarrow> (node \<times> locals) outcome" where
  "for_orphans e [] sl = Returned sl"
| "for_orphans e (mi # rest) sl =
     (case process_orphan e mi sl of
        Returned sl' \<Rightarrow> for_orphans e rest sl'
      | Abort \<Rightarrow> Abort
      | OutOfFuel \<Rightarrow> OutOfFuel)"

text \<open>
  The \<open>while (!vWorkQueue.empty())\<close> loop (lines 176 to 237). The orphan pool is not
  changed inside the loop (erasure is deferred to \<open>vEraseQueue\<close>), and an accepted
  orphan puts its own outpoints on the queue, so the number of rounds is not bounded
  by the code itself: each round takes one unit of fuel.
\<close>

fun orphan_work :: "nat \<Rightarrow> env \<Rightarrow> node \<times> locals \<Rightarrow> (node \<times> locals) outcome" where
  "orphan_work 0 e sl = (if vWorkQueue (snd sl) = [] then Returned sl else OutOfFuel)"
| "orphan_work (Suc k) e sl =
     (case vWorkQueue (snd sl) of
        [] \<Rightarrow> Returned sl
      | front # rest \<Rightarrow>
          (let itByPrev = FindOrphanTransactionsByPrev (orphanTxMgr (fst sl)) front;
               sl1 = (fst sl, (snd sl)\<lparr>vWorkQueue := rest\<rparr>)
           in if itByPrev = [] then orphan_work k e sl1
              else (case for_orphans e itByPrev sl1 of
                      Returned sl' \<Rightarrow> orphan_work k e sl'
                    | Abort \<Rightarrow> Abort
                    | OutOfFuel \<Rightarrow> OutOfFuel)))"

text \<open>\<open>for (uint256 hash : vEraseQueue) orphanTxMgr.EraseOrphanTx(hash);\<close>\<close>

definition erase_all :: "uint256 list \<Rightarrow> orphans \<Rightarrow> orphans" where
  "erase_all hs orph = foldl (\<lambda>p h. snd (EraseOrphanTx p h)) orph hs"

text \<open>The block taken when the transaction was accepted (lines 157 to 240).\<close>

definition accept_branch ::
  "nat \<Rightarrow> env \<Rightarrow> node \<Rightarrow> ExNode \<Rightarrow> CTransaction \<Rightarrow> CTransaction list
     \<Rightarrow> (node \<times> ExNode \<times> CTransaction list) outcome" where
  "accept_branch fuel e s xnode t removed0 =
     (let s1 = emit [MempoolCheck, BroadcastTransaction (GetHash t)] s;
          l0 = \<lparr>vWorkQueue = outpoints_of t, vEraseQueue = [], lRemovedTxn = removed0,
                setMisbehaving = {}\<rparr>;
          xnode1 = xnode\<lparr>retFlags := SetFlagsBit (retFlags xnode) NF_NEWTRANSACTION\<rparr>
      in case orphan_work fuel e (s1, l0) of
           Returned (s2, l2) \<Rightarrow>
             Returned (s2\<lparr>orphanTxMgr := erase_all (vEraseQueue l2) (orphanTxMgr s2)\<rparr>,
                       xnode1, lRemovedTxn l2)
         | Abort \<Rightarrow> Abort
         | OutOfFuel \<Rightarrow> OutOfFuel)"

text \<open>
  The block taken on missing inputs (lines 243 to 285). The first loop reads
  \<open>recentRejects\<close> without a null check once per input until a hit.
\<close>

definition rejected_parents :: "node \<Rightarrow> CTransaction \<Rightarrow> bool outcome" where
  "rejected_parents s t =
     (case recentRejects s of
        None \<Rightarrow> (if vin t = [] then Returned False else Abort)
      | Some rr \<Rightarrow> Returned (\<exists>txin \<in> set (vin t). op_hash (prevout txin) \<in> rr))"

definition request_parent :: "env \<Rightarrow> ExNode \<Rightarrow> int \<Rightarrow> node \<Rightarrow> CTxIn \<Rightarrow> node" where
  "request_parent e xnode nFetchFlags s txin =
     (let h = op_hash (prevout txin);
          s1 = emit [AddTxInventoryKnown (nodeID xnode) h nFetchFlags] s;
          (known, s2) = DoesTxExist e s1 h
      in if \<not> known then emit [AskForTransaction (nodeID xnode) h nFetchFlags] s2 else s2)"

definition missing_branch :: "env \<Rightarrow> node \<Rightarrow> ExNode \<Rightarrow> CTransaction \<Rightarrow> node outcome" where
  "missing_branch e s xnode t =
     (case rejected_parents s t of
        Returned fRejectedParents \<Rightarrow>
          if \<not> fRejectedParents then
            (let nFetchFlags =
                   (if IsFlagsBitOn (nLocalServices xnode) NODE_WITNESS \<and>
                       IsFlagsBitOn (flags xnode) NF_WITNESS
                    then MSG_WITNESS_FLAG else 0);
                 s1 = foldl (request_parent e xnode nFetchFlags) s (vin t);
                 (added, orph1) = AddOrphanTx (orphanTxMgr s1) t (nodeID xnode) (GetTime e);
                 nMaxOrphanTx = unat (maxorphantx e);
                 (nEvicted, orph2) = LimitOrphanTxSize e orph1 nMaxOrphanTx
             in Returned (s1\<lparr>orphanTxMgr := orph2\<rparr>))
          else
            (case recentRejects s of
               None \<Rightarrow> Abort
             | Some rr \<Rightarrow>
                 Returned (emit [RecentRejectsInsert (GetHash t)]
                             (s\<lparr>recentRejects := Some (insert (GetHash t) rr)\<rparr>)))
      | Abort \<Rightarrow> Abort
      | OutOfFuel \<Rightarrow> OutOfFuel)"

text \<open>The final \<open>else\<close> block (lines 287 to 328): the transaction is invalid or was
  already known.\<close>

definition reject_branch ::
  "env \<Rightarrow> node \<Rightarrow> ExNode \<Rightarrow> CTransaction \<Rightarrow> CValidationState \<Rightarrow> node outcome" where
  "reject_branch e s xnode t state =
     (let r1 =
            (if \<not> HasWitness t \<and> \<not> CorruptionPossible state then
               (case recentRejects s of
                  None \<Rightarrow> Abort
                | Some rr \<Rightarrow>
                    (let s1 = emit [RecentRejectsInsert (GetHash t)]
                                (s\<lparr>recentRejects := Some (insert (GetHash t) rr)\<rparr>)
                     in if RecursiveDynamicUsage t < 100000
                        then Returned (emit [AddToCompactExtraTransactions t] s1)
                        else Returned s1))
             else if HasWitness t \<and> RecursiveDynamicUsage t < 100000
             then Returned (emit [AddToCompactExtraTransactions t] s)
             else Returned s)
      in case r1 of
           Returned s2 \<Rightarrow>
             if IsFlagsBitOn (flags xnode) NF_WHITELIST \<and> whitelistforcerelay e
             then (if \<not> IsInvalid state \<or> nDoS state = 0
                   then Returned (emit [BroadcastTransaction (GetHash t)] s2)
                   else Returned s2)
             else Returned s2
         | Abort \<Rightarrow> Abort
         | OutOfFuel \<Rightarrow> OutOfFuel)"

text \<open>What the function returns to its caller: the return value, the globals, the
  peer context (\<open>retFlags\<close>, \<open>nMisbehavior\<close>) and the out-parameter \<open>txHash\<close> (\<open>None\<close>:
  not assigned).\<close>

record rx =
  rx_ret :: bool
  rx_node :: node
  rx_xnode :: ExNode
  rx_txHash :: "uint256 option"

text \<open>The \<open>REJECT\<close> message of lines 339 to 347: sent when the reject code is set and
  below \<open>REJECT_INTERNAL\<close>; the code is cast to \<open>unsigned char\<close> and the reason cut to
  \<open>MAX_REJECT_MESSAGE_LENGTH\<close>.\<close>

definition reject_msg :: "env \<Rightarrow> ExNode \<Rightarrow> CTransaction \<Rightarrow> CValidationState \<Rightarrow> event list" where
  "reject_msg e xnode t state =
     (if GetRejectCode state > 0 \<and> GetRejectCode state < REJECT_INTERNAL e
      then [SendREJECT (nodeID xnode) (sendVersion xnode) (GetRejectCode state mod 256)
              (take (MAX_REJECT_MESSAGE_LENGTH e) (GetRejectReason state)) (GetHash t)]
      else [])"

text \<open>The tail of the function (lines 330 to 355): evicted transactions go to the
  extra pool, an invalid state is reported to the peer and its score stored in the
  peer context, the function returns true.\<close>

definition report ::
  "env \<Rightarrow> node \<Rightarrow> ExNode \<Rightarrow> CTransaction \<Rightarrow> CValidationState \<Rightarrow> CTransaction list \<Rightarrow> rx" where
  "report e s xnode t state removed =
     (let s1 = emit (map AddToCompactExtraTransactions removed) s
      in if IsInvalid state then
           \<lparr>rx_ret = True,
            rx_node = emit (reject_msg e xnode t state) s1,
            rx_xnode = (if nDoS state > 0 then xnode\<lparr>nMisbehavior := nDoS state\<rparr> else xnode),
            rx_txHash = Some (GetHash t)\<rparr>
         else \<lparr>rx_ret = True, rx_node = s1, rx_xnode = xnode, rx_txHash = Some (GetHash t)\<rparr>)"

text \<open>The admission-control gate at the head of the function (lines 127 to 133).\<close>

definition relay_gate :: "env \<Rightarrow> ExNode \<Rightarrow> bool" where
  "relay_gate e xnode =
     (\<not> IsFlagsBitOn (flags xnode) NF_RELAYTX \<and>
      (\<not> IsFlagsBitOn (flags xnode) NF_WHITELIST \<or> \<not> whitelistrelay e))"

text \<open>
  \<open>NetReceiveTxData\<close>. The transaction is taken as deserialised from the stream. In
  \<open>!DoesTxExist(..) && AcceptToMemoryPool(..)\<close> the validator runs only when the
  transaction is not known; otherwise \<open>state\<close> stays as constructed and
  \<open>fMissingInputs\<close> stays false.
\<close>

definition NetReceiveTxData :: "nat \<Rightarrow> env \<Rightarrow> node \<Rightarrow> ExNode \<Rightarrow> CTransaction \<Rightarrow> rx outcome" where
  "NetReceiveTxData fuel e s xnode t =
     (if relay_gate e xnode
      then Returned \<lparr>rx_ret = True, rx_node = s, rx_xnode = xnode, rx_txHash = None\<rparr>
      else
        (case DoesTxExist e s (GetHash t) of
           (known, s1) \<Rightarrow>
            if known then
              (case reject_branch e s1 xnode t fresh_state of
                 Returned s2 \<Rightarrow> Returned (report e s2 xnode t fresh_state [])
               | Abort \<Rightarrow> Abort
               | OutOfFuel \<Rightarrow> OutOfFuel)
            else
              (let r = AcceptToMemoryPool e (pool s1) t;
                   s2 = emit [CallAcceptToMemoryPool t] (s1\<lparr>pool := newpool r\<rparr>)
               in if accepted r then
                    (case accept_branch fuel e s2 xnode t (removedTxn r) of
                       Returned (s3, xnode1, removed) \<Rightarrow>
                         Returned (report e s3 xnode1 t (vstate r) removed)
                     | Abort \<Rightarrow> Abort
                     | OutOfFuel \<Rightarrow> OutOfFuel)
                  else if fMissingInputs r then
                    (case missing_branch e s2 xnode t of
                       Returned s3 \<Rightarrow> Returned (report e s3 xnode t (vstate r) (removedTxn r))
                     | Abort \<Rightarrow> Abort
                     | OutOfFuel \<Rightarrow> OutOfFuel)
                  else
                    (case reject_branch e s2 xnode t (vstate r) of
                       Returned s3 \<Rightarrow> Returned (report e s3 xnode t (vstate r) (removedTxn r))
                     | Abort \<Rightarrow> Abort
                     | OutOfFuel \<Rightarrow> OutOfFuel))))"

section \<open>The egress pipeline\<close>

text \<open>
  Of \<open>NetRequestTxInventory\<close> the model has the mempool dump (lines 368 to 395), the
  expiry of the relay cache that opens the pending drain (lines 399 to 406) and the
  insertion into the relay cache (lines 439 to 443). The heap-ordered drain between
  them depends on \<open>std::make_heap\<close>, \<open>std::pop_heap\<close> and the mempool's
  \<open>CompareDepthAndScore\<close>, and is not modelled.

  The working state of the dump: the globals, the peer's bloom filter behind the
  pointer \<open>txFilter\<close> (\<open>None\<close>: a null pointer), the caller's vectors \<open>toSendTxHashes\<close>
  and \<open>haveSentTxHashes\<close>, and the local \<open>vInv\<close> (every entry is of type \<open>MSG_TX\<close>, so
  an entry is its hash).
\<close>

record 'f egress =
  eg_node :: node
  txFilter :: "'f option"
  toSendTxHashes :: "uint256 list"
  haveSentTxHashes :: "uint256 list"
  vInv :: "uint256 list"

definition flush_if_full :: "ExNode \<Rightarrow> 'f egress \<Rightarrow> 'f egress" where
  "flush_if_full xnode st =
     (if length (vInv st) = MAX_INV_SZ
      then st\<lparr>eg_node := emit [SendINV (nodeID xnode) (sendVersion xnode) (vInv st)] (eg_node st),
              vInv := []\<rparr>
      else st)"

definition advertise :: "ExNode \<Rightarrow> uint256 \<Rightarrow> 'f egress \<Rightarrow> 'f egress" where
  "advertise xnode h st =
     flush_if_full xnode
       (st\<lparr>haveSentTxHashes := haveSentTxHashes st @ [h], vInv := vInv st @ [h]\<rparr>)"

text \<open>
  The body of the dump loop for one mempool entry. \<open>IsRelevantAndUpdate\<close> belongs to
  \<open>CBloomFilter\<close> (outside the sources) and updates the filter, so it is a parameter
  that returns the answer and the new filter. \<open>std::find\<close> followed by \<open>erase\<close> removes
  the first occurrence of the hash.
\<close>

definition send_mempool_entry ::
  "('f \<Rightarrow> CTransaction \<Rightarrow> bool \<times> 'f) \<Rightarrow> ExNode \<Rightarrow> int \<Rightarrow> 'f egress \<Rightarrow> TxMempoolInfo \<Rightarrow> 'f egress" where
  "send_mempool_entry IsRelevantAndUpdate xnode minFeeFilter st txinfo =
     (let h = GetHash (tx txinfo);
          st1 = st\<lparr>toSendTxHashes := remove1 h (toSendTxHashes st)\<rparr>
      in if GetFeePerK txinfo < minFeeFilter then st1
         else (case txFilter st1 of
                 Some f \<Rightarrow>
                   (let (relevant, f') = IsRelevantAndUpdate f (tx txinfo);
                        st2 = st1\<lparr>txFilter := Some f'\<rparr>
                    in if \<not> relevant then st2 else advertise xnode h st2)
               | None \<Rightarrow> advertise xnode h st1))"

definition send_mempool ::
  "('f \<Rightarrow> CTransaction \<Rightarrow> bool \<times> 'f) \<Rightarrow> ExNode \<Rightarrow> int \<Rightarrow> 'f egress \<Rightarrow> 'f egress" where
  "send_mempool IsRelevantAndUpdate xnode minFeeFilter st =
     foldl (send_mempool_entry IsRelevantAndUpdate xnode minFeeFilter) st (pool (eg_node st))"

text \<open>The first part of \<open>NetRequestTxInventory\<close>, up to line 395.\<close>

definition inventory_dump ::
  "('f \<Rightarrow> CTransaction \<Rightarrow> bool \<times> 'f) \<Rightarrow> ExNode \<Rightarrow> bool \<Rightarrow> int \<Rightarrow> 'f egress \<Rightarrow> 'f egress" where
  "inventory_dump IsRelevantAndUpdate xnode sendMempool minFeeFilter st =
     (if sendMempool then send_mempool IsRelevantAndUpdate xnode minFeeFilter st else st)"

text \<open>
  The two tests of the dump loop, on their own. An entry passes when its fee rate is
  not below the floor and, if the peer has a filter, the filter (in the state it has
  when the entry's turn comes) answers true. The filter is consulted, and so updated,
  only for entries that are not below the floor.
\<close>

definition passes ::
  "('f \<Rightarrow> CTransaction \<Rightarrow> bool \<times> 'f) \<Rightarrow> int \<Rightarrow> 'f option \<Rightarrow> TxMempoolInfo \<Rightarrow> bool" where
  "passes upd minFeeFilter flt txinfo =
     (\<not> GetFeePerK txinfo < minFeeFilter \<and>
      (case flt of None \<Rightarrow> True | Some f \<Rightarrow> fst (upd f (tx txinfo))))"

definition filter_after ::
  "('f \<Rightarrow> CTransaction \<Rightarrow> bool \<times> 'f) \<Rightarrow> int \<Rightarrow> 'f option \<Rightarrow> TxMempoolInfo \<Rightarrow> 'f option" where
  "filter_after upd minFeeFilter flt txinfo =
     (if GetFeePerK txinfo < minFeeFilter then flt
      else map_option (\<lambda>f. snd (upd f (tx txinfo))) flt)"

text \<open>The mempool entries that pass, in the order of the mempool listing.\<close>

fun dump_selected ::
  "('f \<Rightarrow> CTransaction \<Rightarrow> bool \<times> 'f) \<Rightarrow> int \<Rightarrow> 'f option \<Rightarrow> TxMempoolInfo list \<Rightarrow> TxMempoolInfo list" where
  "dump_selected upd minFeeFilter flt [] = []"
| "dump_selected upd minFeeFilter flt (txinfo # rest) =
     (if passes upd minFeeFilter flt txinfo then [txinfo] else []) @
     dump_selected upd minFeeFilter (filter_after upd minFeeFilter flt txinfo) rest"

text \<open>The hashes announced by the \<open>INV\<close> messages in a log, in order.\<close>

fun inv_hashes :: "event list \<Rightarrow> uint256 list" where
  "inv_hashes [] = []"
| "inv_hashes (SendINV p v hs # es) = hs @ inv_hashes es"
| "inv_hashes (ev # es) = inv_hashes es"

text \<open>
  The relay cache. The expiration queue holds iterators into \<open>mapRelay\<close>; an iterator
  is modelled by the key it points to, so \<open>mapRelay.erase(it)\<close> removes that key.
  Times are \<open>int64_t\<close> microseconds, modelled as integers.
\<close>

definition RELAY_TTL :: int where
  "RELAY_TTL = 15 * 60 * 1000000"

fun expire_loop ::
  "int \<Rightarrow> (uint256 \<rightharpoonup> CTransaction) \<Rightarrow> (int \<times> uint256) list
     \<Rightarrow> (uint256 \<rightharpoonup> CTransaction) \<times> (int \<times> uint256) list" where
  "expire_loop nNow m [] = (m, [])"
| "expire_loop nNow m (front # q) =
     (if fst front < nNow then expire_loop nNow (m(snd front := None)) q
      else (m, front # q))"

definition expire_relay :: "int \<Rightarrow> node \<Rightarrow> node" where
  "expire_relay nNow s =
     (let (m, q) = expire_loop nNow (mapRelay s) (vRelayExpiration s)
      in s\<lparr>mapRelay := m, vRelayExpiration := q\<rparr>)"

text \<open>\<open>mapRelay.insert\<close> of lines 439 to 443: a new key gets a queue entry that expires
  15 minutes later; a key that is present is left alone.\<close>

definition relay_insert :: "int \<Rightarrow> uint256 \<Rightarrow> CTransaction \<Rightarrow> node \<Rightarrow> node" where
  "relay_insert nNow h t s =
     (if mapRelay s h = None
      then s\<lparr>mapRelay := (mapRelay s)(h \<mapsto> t),
             vRelayExpiration := vRelayExpiration s @ [(nNow + RELAY_TTL, h)]\<rparr>
      else s)"

text \<open>The relay cache is well formed when the queue is in non-decreasing order of
  expiry and the keys of the map are the keys in the queue, each once.\<close>

definition relay_wf :: "node \<Rightarrow> bool" where
  "relay_wf s =
     (sorted (map fst (vRelayExpiration s)) \<and>
      distinct (map snd (vRelayExpiration s)) \<and>
      dom (mapRelay s) = set (map snd (vRelayExpiration s)))"

section \<open>Notions for the properties\<close>

text \<open>
  The orphan pool is acyclic when some rank grows strictly from every parent txid to the
  orphan that spends it. Txids are hashes of the transaction's bytes, which include
  the parents' txids, so a real pool has such a rank; the model's txids are plain
  numbers, and the property has to be stated.
\<close>

definition acyclic_orphans :: "(uint256 \<Rightarrow> nat) \<Rightarrow> orphans \<Rightarrow> bool" where
  "acyclic_orphans rk orph =
     (\<forall>mi \<in> set orph. \<forall>txin \<in> set (vin (otx mi)).
        rk (op_hash (prevout txin)) < rk (GetHash (otx mi)))"

text \<open>
  An orphan is always missing inputs (for a given validator) when the validator,
  whatever the mempool, refuses it and reports missing inputs.
\<close>

definition always_missing :: "env \<Rightarrow> COrphanTx \<Rightarrow> bool" where
  "always_missing e mi =
     (\<forall>mp. \<not> accepted (AcceptToMemoryPool e mp (otx mi)) \<and>
           fMissingInputs (AcceptToMemoryPool e mp (otx mi)))"

text \<open>
  The filter is in step with the chain when it exists and the stored tip is the tip of
  the active chain (so that a query does not reset it).
\<close>

definition synced :: "env \<Rightarrow> node \<Rightarrow> bool" where
  "synced e s = (recentRejects s \<noteq> None \<and> hashRecentRejectsChainTip s = tipBlockHash e)"

text \<open>
  Notions about the log, used in the proofs. \<open>is_request\<close>: the event is one of the
  two calls made for a parent of a parked transaction. \<open>scored_once\<close> reads a log from
  left to right with the set of peers scored so far: a scored peer is not scored again,
  and no orphan of a scored peer is validated; \<open>scored\<close> is the set of the peers scored
  in a log.
\<close>

definition is_request :: "event \<Rightarrow> bool" where
  "is_request ev =
     (case ev of AddTxInventoryKnown p h f \<Rightarrow> True | AskForTransaction p h f \<Rightarrow> True
      | _ \<Rightarrow> False)"

fun scored_once :: "orphans \<Rightarrow> NodeId set \<Rightarrow> event list \<Rightarrow> bool" where
  "scored_once orph M [] = True"
| "scored_once orph M (MisbehaveNode p d # es) = (p \<notin> M \<and> scored_once orph (insert p M) es)"
| "scored_once orph M (CallAcceptToMemoryPool t # es) =
     ((\<forall>mi \<in> set orph. otx mi = t \<longrightarrow> fromPeer mi \<notin> M) \<and> scored_once orph M es)"
| "scored_once orph M (ev # es) = scored_once orph M es"

definition scored :: "event list \<Rightarrow> NodeId set" where
  "scored es = {p. \<exists>d. MisbehaveNode p d \<in> set es}"




section \<open>Sample data\<close>

text \<open>
  Transactions. The parents 1 and 2 are confirmed; 60 and 77 are transactions nobody
  has. \<open>txW\<close> and \<open>txBadW\<close> carry a witness, \<open>txBadW\<close> has a negative output, \<open>txBig\<close> is
  oversized.
\<close>

definition txA :: CTransaction where
  "txA = \<lparr>GetHash = 10, vin = [\<lparr>prevout = \<lparr>op_hash = 1, op_n = 0\<rparr>\<rparr>], vout = [50],
          HasWitness = False, RecursiveDynamicUsage = 200\<rparr>"

definition txB :: CTransaction where
  "txB = \<lparr>GetHash = 11, vin = [\<lparr>prevout = \<lparr>op_hash = 2, op_n = 0\<rparr>\<rparr>], vout = [20, 30],
          HasWitness = True, RecursiveDynamicUsage = 300\<rparr>"

definition txO :: CTransaction where
  "txO = \<lparr>GetHash = 61, vin = [\<lparr>prevout = \<lparr>op_hash = 60, op_n = 0\<rparr>\<rparr>], vout = [50],
          HasWitness = False, RecursiveDynamicUsage = 200\<rparr>"

definition txP :: CTransaction where
  "txP = \<lparr>GetHash = 20, vin = [\<lparr>prevout = \<lparr>op_hash = 1, op_n = 0\<rparr>\<rparr>], vout = [10, 10],
          HasWitness = False, RecursiveDynamicUsage = 200\<rparr>"


definition txBig :: CTransaction where
  "txBig = \<lparr>GetHash = 30, vin = [\<lparr>prevout = \<lparr>op_hash = 1, op_n = 0\<rparr>\<rparr>], vout = [50],
          HasWitness = False, RecursiveDynamicUsage = 200000\<rparr>"

definition txBadW :: CTransaction where
  "txBadW = \<lparr>GetHash = 40, vin = [\<lparr>prevout = \<lparr>op_hash = 1, op_n = 0\<rparr>\<rparr>], vout = [- 5],
          HasWitness = True, RecursiveDynamicUsage = 200\<rparr>"

text \<open>
  Peers: \<open>peerA\<close> relays transactions, \<open>peerW\<close> is whitelisted as well, \<open>peerG\<close> has no
  flag at all.
\<close>

definition peerA :: ExNode where
  "peerA = \<lparr>nodeID = 7, flags = {NF_RELAYTX}, nLocalServices = {NODE_NETWORK},
            sendVersion = 70015, nMisbehavior = 0, retFlags = {}\<rparr>"

definition peerW :: ExNode where
  "peerW = \<lparr>nodeID = 5, flags = {NF_RELAYTX, NF_WHITELIST}, nLocalServices = {NODE_NETWORK},
            sendVersion = 70015, nMisbehavior = 0, retFlags = {}\<rparr>"

definition peerG :: ExNode where
  "peerG = \<lparr>nodeID = 6, flags = {}, nLocalServices = {NODE_NETWORK},
            sendVersion = 70015, nMisbehavior = 0, retFlags = {}\<rparr>"

text \<open>
  A pool of four orphans: \<open>orphC\<close> spends output 0 of \<open>txP\<close>; \<open>orphQ\<close> and \<open>orphQ2\<close>,
  both from peer 8, spend output 1 and have a negative output; \<open>orphM\<close> spends \<open>orphC\<close>
  and a transaction nobody has. \<open>rank1\<close> is a rank for this pool.
\<close>

definition orphC :: COrphanTx where
  "orphC = \<lparr>otx = \<lparr>GetHash = 21, vin = [\<lparr>prevout = \<lparr>op_hash = 20, op_n = 0\<rparr>\<rparr>], vout = [5],
                  HasWitness = False, RecursiveDynamicUsage = 200\<rparr>,
            fromPeer = 7, nTimeExpire = 0\<rparr>"

definition orphQ :: COrphanTx where
  "orphQ = \<lparr>otx = \<lparr>GetHash = 22, vin = [\<lparr>prevout = \<lparr>op_hash = 20, op_n = 1\<rparr>\<rparr>], vout = [- 1],
                  HasWitness = False, RecursiveDynamicUsage = 200\<rparr>,
            fromPeer = 8, nTimeExpire = 0\<rparr>"

definition orphQ2 :: COrphanTx where
  "orphQ2 = \<lparr>otx = \<lparr>GetHash = 23, vin = [\<lparr>prevout = \<lparr>op_hash = 20, op_n = 1\<rparr>\<rparr>], vout = [- 2],
                  HasWitness = False, RecursiveDynamicUsage = 200\<rparr>,
            fromPeer = 8, nTimeExpire = 0\<rparr>"

definition orphM :: COrphanTx where
  "orphM = \<lparr>otx = \<lparr>GetHash = 24, vin = [\<lparr>prevout = \<lparr>op_hash = 21, op_n = 0\<rparr>\<rparr>,
                                       \<lparr>prevout = \<lparr>op_hash = 77, op_n = 0\<rparr>\<rparr>], vout = [1],
                  HasWitness = False, RecursiveDynamicUsage = 200\<rparr>,
            fromPeer = 9, nTimeExpire = 0\<rparr>"

definition rank1 :: "uint256 \<Rightarrow> nat" where
  "rank1 h = (if h = 24 then 2 else if h = 21 \<or> h = 22 \<or> h = 23 then 1 else 0)"

text \<open>
  A stand-in for the validator: a transaction already in the pool is refused (invalid,
  score 0); a negative output value is invalid with score 100; a transaction of more
  than 100,000 bytes is refused by policy (invalid, score 0); an input whose parent is
  neither confirmed (here: a hash below 5) nor in the pool is a missing input;
  anything else is accepted and appended to the pool. The environment \<open>env0\<close> uses it;
  \<open>env1\<close> differs in answering missing inputs for the transaction of \<open>orphM\<close> whatever
  the mempool holds.
\<close>

definition sample_atmp :: "mempool \<Rightarrow> CTransaction \<Rightarrow> atmp_result" where
  "sample_atmp mp t =
     (if mempool_exists mp (GetHash t) then
        \<lparr>accepted = False, fMissingInputs = False,
         vstate = \<lparr>mode = MODE_INVALID, nDoS = 0, GetRejectCode = 0x12,
                   GetRejectReason = ''txn-already-in-mempool'', CorruptionPossible = False\<rparr>,
         removedTxn = [], newpool = mp\<rparr>
      else if \<exists>v \<in> set (vout t). v < 0 then
        \<lparr>accepted = False, fMissingInputs = False,
         vstate = \<lparr>mode = MODE_INVALID, nDoS = 100, GetRejectCode = 0x10,
                   GetRejectReason = ''bad-txns-vout-negative'', CorruptionPossible = False\<rparr>,
         removedTxn = [], newpool = mp\<rparr>
      else if RecursiveDynamicUsage t > 100000 then
        \<lparr>accepted = False, fMissingInputs = False,
         vstate = \<lparr>mode = MODE_INVALID, nDoS = 0, GetRejectCode = 0x40,
                   GetRejectReason = ''tx-size'', CorruptionPossible = False\<rparr>,
         removedTxn = [], newpool = mp\<rparr>
      else if \<exists>txin \<in> set (vin t). \<not> (op_hash (prevout txin) < 5 \<or>
                                         mempool_exists mp (op_hash (prevout txin))) then
        \<lparr>accepted = False, fMissingInputs = True, vstate = fresh_state,
         removedTxn = [], newpool = mp\<rparr>
      else
        \<lparr>accepted = True, fMissingInputs = False, vstate = fresh_state,
         removedTxn = [], newpool = mp @ [\<lparr>tx = t, nTime = 0, GetFeePerK = 1000\<rparr>]\<rparr>)"

definition env0 :: env where
  "env0 = \<lparr>AcceptToMemoryPool = sample_atmp, tipBlockHash = 100,
           coinsTip = Some (\<lambda>outp. False), whitelistrelay = True, whitelistforcerelay = True,
           maxorphantx = 100, REJECT_INTERNAL = 0x100, MAX_REJECT_MESSAGE_LENGTH = 111,
           GetTime = 0, LimitOrphanTxSize = (\<lambda>p k. (length p - k, take k p))\<rparr>"

definition env1 :: env where
  "env1 = env0\<lparr>AcceptToMemoryPool :=
     (\<lambda>mp t. if GetHash t = 24
              then \<lparr>accepted = False, fMissingInputs = True, vstate = fresh_state,
                    removedTxn = [], newpool = mp\<rparr>
              else sample_atmp mp t)\<rparr>"

text \<open>
  A stand-in for the peer's bloom filter: a set of hashes; a transaction is relevant
  when its hash or the hash of one of its parents is in the set, and a relevant
  transaction's hash is added.
\<close>

definition sample_bloom :: "uint256 set \<Rightarrow> CTransaction \<Rightarrow> bool \<times> uint256 set" where
  "sample_bloom f t =
     (if GetHash t \<in> f \<or> (\<exists>txin \<in> set (vin t). op_hash (prevout txin) \<in> f)
      then (True, insert (GetHash t) f) else (False, f))"

text \<open>
  Nodes: \<open>node0\<close> is empty with the filter initialised, \<open>node1\<close> has the four orphans,
  \<open>nodeA\<close> has \<open>txA\<close> in its mempool, \<open>nodeR\<close> has a relay cache with two entries
  inserted at times 1000 and 2000. \<open>egress0\<close> is an egress state with three mempool
  entries, a filter and three pending hashes.
\<close>

definition node0 :: node where
  "node0 = \<lparr>recentRejects = Some {}, hashRecentRejectsChainTip = 100,
            mapRelay = Map.empty, vRelayExpiration = [],
            pool = [], orphanTxMgr = [], calls = []\<rparr>"

definition node1 :: node where
  "node1 = node0\<lparr>orphanTxMgr := [orphC, orphQ, orphQ2, orphM]\<rparr>"

definition nodeA :: node where
  "nodeA = node0\<lparr>pool := [\<lparr>tx = txA, nTime = 5, GetFeePerK = 1000\<rparr>]\<rparr>"

definition nodeR :: node where
  "nodeR = relay_insert 2000 11 txB (relay_insert 1000 10 txA node0)"

definition egress0 :: "uint256 set egress" where
  "egress0 = \<lparr>eg_node = node0\<lparr>pool := [\<lparr>tx = txA, nTime = 5, GetFeePerK = 1000\<rparr>,
                                         \<lparr>tx = txB, nTime = 6, GetFeePerK = 10\<rparr>,
                                         \<lparr>tx = txP, nTime = 7, GetFeePerK = 2000\<rparr>]\<rparr>,
              txFilter = Some {1}, toSendTxHashes = [20, 11, 99],
              haveSentTxHashes = [], vInv = []\<rparr>"

text \<open>
  Results: of receiving \<open>txP\<close> at \<open>node1\<close>, and of receiving \<open>txA\<close> at \<open>node0\<close> once and
  then once more.
\<close>

definition res1 :: rx where
  "res1 = \<lparr>rx_ret = True,
       rx_node = \<lparr>recentRejects = Some {22}, hashRecentRejectsChainTip = 100,
         mapRelay = Map.empty, vRelayExpiration = [],
         pool = [\<lparr>tx = txP, nTime = 0, GetFeePerK = 1000\<rparr>,
                 \<lparr>tx = otx orphC, nTime = 0, GetFeePerK = 1000\<rparr>],
         orphanTxMgr = [orphQ2, orphM],
         calls = [CallAcceptToMemoryPool txP, MempoolCheck, BroadcastTransaction 20,
                  CallAcceptToMemoryPool (otx orphC), BroadcastTransaction 21, MempoolCheck,
                  CallAcceptToMemoryPool (otx orphQ), MisbehaveNode 8 100,
                  RecentRejectsInsert 22, MempoolCheck,
                  CallAcceptToMemoryPool (otx orphM), MempoolCheck]\<rparr>,
       rx_xnode = peerA\<lparr>retFlags := {NF_NEWTRANSACTION}\<rparr>,
       rx_txHash = Some 20\<rparr>"

definition resA1 :: rx where
  "resA1 = \<lparr>rx_ret = True,
     rx_node = node0\<lparr>pool := [\<lparr>tx = txA, nTime = 0, GetFeePerK = 1000\<rparr>],
                     calls := [CallAcceptToMemoryPool txA, MempoolCheck, BroadcastTransaction 10]\<rparr>,
     rx_xnode = peerA\<lparr>retFlags := {NF_NEWTRANSACTION}\<rparr>, rx_txHash = Some 10\<rparr>"

definition resA2 :: rx where
  "resA2 = \<lparr>rx_ret = True,
     rx_node = node0\<lparr>recentRejects := Some {10},
                     pool := [\<lparr>tx = txA, nTime = 0, GetFeePerK = 1000\<rparr>],
                     calls := [CallAcceptToMemoryPool txA, MempoolCheck, BroadcastTransaction 10,
                               RecentRejectsInsert 10, AddToCompactExtraTransactions txA]\<rparr>,
     rx_xnode = peerA, rx_txHash = Some 10\<rparr>"

section \<open>Basic facts about the building blocks\<close>

lemma emit_fields:
  "recentRejects (emit es s) = recentRejects s"
  "hashRecentRejectsChainTip (emit es s) = hashRecentRejectsChainTip s"
  "mapRelay (emit es s) = mapRelay s"
  "vRelayExpiration (emit es s) = vRelayExpiration s"
  "pool (emit es s) = pool s"
  "orphanTxMgr (emit es s) = orphanTxMgr s"
  "calls (emit es s) = calls s @ es"
  by (simp_all add: emit_def)

lemma query_rejects_fields:
  "orphanTxMgr (snd (query_rejects e s h)) = orphanTxMgr s"
  "pool (snd (query_rejects e s h)) = pool s"
  "calls (snd (query_rejects e s h)) = calls s"
  "mapRelay (snd (query_rejects e s h)) = mapRelay s"
  "vRelayExpiration (snd (query_rejects e s h)) = vRelayExpiration s"
  by (simp_all add: query_rejects_def split: option.splits)

lemma DoesTxExist_snd: "snd (DoesTxExist e s h) = snd (query_rejects e s h)"
  by (simp add: DoesTxExist_def split: prod.splits option.splits)

lemma DoesTxExist_fields:
  "orphanTxMgr (snd (DoesTxExist e s h)) = orphanTxMgr s"
  "pool (snd (DoesTxExist e s h)) = pool s"
  "calls (snd (DoesTxExist e s h)) = calls s"
  "mapRelay (snd (DoesTxExist e s h)) = mapRelay s"
  "vRelayExpiration (snd (DoesTxExist e s h)) = vRelayExpiration s"
  by (simp_all add: DoesTxExist_snd query_rejects_fields)

lemma report_node:
  "rx_node (report e s xnode t state removed) =
     emit (map AddToCompactExtraTransactions removed @
           (if IsInvalid state then reject_msg e xnode t state else [])) s"
  by (simp add: report_def emit_def Let_def)

lemma report_ret: "rx_ret (report e s xnode t state removed) = True"
  by (simp add: report_def Let_def)

subsection \<open>The orphan loops\<close>

lemma process_orphan_not_OutOfFuel: "process_orphan e mi sl \<noteq> OutOfFuel"
  by (cases sl) (simp add: process_orphan_def Let_def split: option.splits)

lemma for_orphans_not_OutOfFuel: "for_orphans e ms sl \<noteq> OutOfFuel"
  by (induction ms arbitrary: sl) (auto simp: process_orphan_not_OutOfFuel split: outcome.splits)

lemma for_orphans_inv:
  assumes "for_orphans e ms sl = Returned sl'" and "I sl"
    and "\<And>mi a b. mi \<in> set ms \<Longrightarrow> I a \<Longrightarrow> process_orphan e mi a = Returned b \<Longrightarrow> I b"
  shows "I sl'"
  using assms
proof (induction ms arbitrary: sl)
  case Nil
  then show ?case by simp
next
  case (Cons mi ms)
  from Cons.prems(1) obtain sm where 1: "process_orphan e mi sl = Returned sm"
    and 2: "for_orphans e ms sm = Returned sl'"
    by (auto split: outcome.splits)
  have sm: "I sm" using Cons.prems(3) [of mi sl sm] Cons.prems(2) 1 by simp
  show ?case
  proof (rule Cons.IH [OF 2 sm])
    fix mj a b
    assume "mj \<in> set ms" "I a" "process_orphan e mj a = Returned b"
    then show "I b" using Cons.prems(3) [of mj a b] by simp
  qed
qed

lemma process_orphan_orphans:
  "process_orphan e mi sl = Returned sl' \<Longrightarrow> orphanTxMgr (fst sl') = orphanTxMgr (fst sl)"
  by (cases sl) (auto simp: process_orphan_def Let_def emit_fields split: option.splits if_splits)

lemma for_orphans_orphans:
  "for_orphans e ms sl = Returned sl' \<Longrightarrow> orphanTxMgr (fst sl') = orphanTxMgr (fst sl)"
  by (rule for_orphans_inv [where I = "\<lambda>a. orphanTxMgr (fst a) = orphanTxMgr (fst sl)"])
     (auto dest: process_orphan_orphans)

lemma process_orphan_queue:
  "process_orphan e mi sl = Returned sl' \<Longrightarrow>
     vWorkQueue (snd sl') = vWorkQueue (snd sl) \<or>
     vWorkQueue (snd sl') = vWorkQueue (snd sl) @ outpoints_of (otx mi)"
  by (cases sl) (auto simp: process_orphan_def Let_def split: option.splits if_splits)

lemma process_orphan_initialised:
  "process_orphan e mi sl = Returned sl' \<Longrightarrow> recentRejects (fst sl) \<noteq> None \<Longrightarrow>
     recentRejects (fst sl') \<noteq> None"
  by (cases sl) (auto simp: process_orphan_def Let_def emit_fields split: option.splits if_splits)

lemma process_orphan_no_Abort:
  "recentRejects (fst sl) \<noteq> None \<Longrightarrow> process_orphan e mi sl \<noteq> Abort"
  by (cases sl) (auto simp: process_orphan_def Let_def emit_fields split: option.splits if_splits)

lemma for_orphans_initialised:
  "for_orphans e ms sl = Returned sl' \<Longrightarrow> recentRejects (fst sl) \<noteq> None \<Longrightarrow>
     recentRejects (fst sl') \<noteq> None"
  by (rule for_orphans_inv [where I = "\<lambda>a. recentRejects (fst a) \<noteq> None"])
     (auto dest: process_orphan_initialised)

lemma for_orphans_no_Abort:
  "recentRejects (fst sl) \<noteq> None \<Longrightarrow> for_orphans e ms sl \<noteq> Abort"
proof (induction ms arbitrary: sl)
  case Nil
  then show ?case by simp
next
  case (Cons mi ms)
  show ?case
  proof (cases "process_orphan e mi sl")
    case (Returned sm)
    then show ?thesis
      using Cons.IH [of sm] process_orphan_initialised [OF Returned] Cons.prems by simp
  next
    case Abort
    then show ?thesis using process_orphan_no_Abort [OF Cons.prems, of e mi] by simp
  next
    case OutOfFuel
    then show ?thesis by simp
  qed
qed

lemma for_orphans_queue:
  assumes "for_orphans e ms sl = Returned sl'"
  shows "\<exists>add. vWorkQueue (snd sl') = vWorkQueue (snd sl) @ add \<and>
           (\<forall>q \<in> set add. \<exists>mi \<in> set ms. op_hash q = GetHash (otx mi))"
proof (rule for_orphans_inv [OF assms, where
      I = "\<lambda>a. \<exists>add. vWorkQueue (snd a) = vWorkQueue (snd sl) @ add \<and>
                 (\<forall>q \<in> set add. \<exists>mi \<in> set ms. op_hash q = GetHash (otx mi))"])
  show "\<exists>add. vWorkQueue (snd sl) = vWorkQueue (snd sl) @ add \<and>
          (\<forall>q \<in> set add. \<exists>mi \<in> set ms. op_hash q = GetHash (otx mi))"
    by simp
next
  fix mi a b
  assume mi: "mi \<in> set ms"
    and a: "\<exists>add. vWorkQueue (snd a) = vWorkQueue (snd sl) @ add \<and>
              (\<forall>q \<in> set add. \<exists>mi \<in> set ms. op_hash q = GetHash (otx mi))"
    and step: "process_orphan e mi a = Returned b"
  from a obtain add where add: "vWorkQueue (snd a) = vWorkQueue (snd sl) @ add"
    "\<forall>q \<in> set add. \<exists>mi \<in> set ms. op_hash q = GetHash (otx mi)" by blast
  from process_orphan_queue [OF step]
  show "\<exists>add. vWorkQueue (snd b) = vWorkQueue (snd sl) @ add \<and>
          (\<forall>q \<in> set add. \<exists>mi \<in> set ms. op_hash q = GetHash (otx mi))"
  proof
    assume "vWorkQueue (snd b) = vWorkQueue (snd a)"
    then show ?thesis using add by auto
  next
    assume b: "vWorkQueue (snd b) = vWorkQueue (snd a) @ outpoints_of (otx mi)"
    have "\<forall>q \<in> set (add @ outpoints_of (otx mi)). \<exists>mi \<in> set ms. op_hash q = GetHash (otx mi)"
      using add(2) mi by (auto simp: outpoints_of_def)
    then show ?thesis using b add(1) by (intro exI [of _ "add @ outpoints_of (otx mi)"]) simp
  qed
qed

lemma orphan_work_inv:
  assumes "orphan_work k e sl = Returned sl'" and "I sl"
    and pop: "\<And>a q. I a \<Longrightarrow> I (fst a, (snd a)\<lparr>vWorkQueue := q\<rparr>)"
    and step: "\<And>mi a b. I a \<Longrightarrow> mi \<in> set (orphanTxMgr (fst a)) \<Longrightarrow>
                 process_orphan e mi a = Returned b \<Longrightarrow> I b"
  shows "I sl'"
  using assms(1,2)
proof (induction k arbitrary: sl)
  case 0
  then show ?case by (simp split: if_splits)
next
  case (Suc k)
  show ?case
  proof (cases "vWorkQueue (snd sl)")
    case Nil
    then show ?thesis using Suc.prems by simp
  next
    case (Cons front rest)
    define sm where "sm = (fst sl, (snd sl)\<lparr>vWorkQueue := rest\<rparr>)"
    define ms where "ms = FindOrphanTransactionsByPrev (orphanTxMgr (fst sl)) front"
    have Ism: "I sm" unfolding sm_def by (rule pop [OF Suc.prems(2)])
    show ?thesis
    proof (cases "ms = []")
      case True
      then have "orphan_work k e sm = Returned sl'"
        using Suc.prems(1) Cons by (simp add: sm_def ms_def Let_def)
      then show ?thesis using Suc.IH Ism by blast
    next
      case False
      then obtain sn where f: "for_orphans e ms sm = Returned sn"
        and w: "orphan_work k e sn = Returned sl'"
        using Suc.prems(1) Cons
        by (auto simp: sm_def ms_def Let_def split: outcome.splits)
      have "I sn \<and> orphanTxMgr (fst sn) = orphanTxMgr (fst sl)"
      proof (rule for_orphans_inv [OF f, where
            I = "\<lambda>a. I a \<and> orphanTxMgr (fst a) = orphanTxMgr (fst sl)"])
        show "I sm \<and> orphanTxMgr (fst sm) = orphanTxMgr (fst sl)"
          using Ism by (simp add: sm_def)
      next
        fix mi a b
        assume mi: "mi \<in> set ms" and a: "I a \<and> orphanTxMgr (fst a) = orphanTxMgr (fst sl)"
          and p: "process_orphan e mi a = Returned b"
        have "mi \<in> set (orphanTxMgr (fst a))"
          using mi a by (simp add: ms_def FindOrphanTransactionsByPrev_def)
        then show "I b \<and> orphanTxMgr (fst b) = orphanTxMgr (fst sl)"
          using step [of a mi b] a p process_orphan_orphans [OF p] by simp
      qed
      then show ?thesis using Suc.IH [OF w] by simp
    qed
  qed
qed

lemma orphan_work_no_Abort:
  "recentRejects (fst sl) \<noteq> None \<Longrightarrow> orphan_work k e sl \<noteq> Abort"
proof (induction k arbitrary: sl)
  case 0
  then show ?case by simp
next
  case (Suc k)
  show ?case
  proof (cases "vWorkQueue (snd sl)")
    case Nil
    then show ?thesis by simp
  next
    case (Cons front rest)
    define sm where "sm = (fst sl, (snd sl)\<lparr>vWorkQueue := rest\<rparr>)"
    define ms where "ms = FindOrphanTransactionsByPrev (orphanTxMgr (fst sl)) front"
    have ism: "recentRejects (fst sm) \<noteq> None" using Suc.prems by (simp add: sm_def)
    show ?thesis
    proof (cases "for_orphans e ms sm")
      case (Returned sn)
      have "recentRejects (fst sn) \<noteq> None"
        using for_orphans_initialised [OF Returned ism] .
      then show ?thesis
        using Suc.IH [of sn] Suc.IH [of sm] ism Returned Cons
        by (simp add: sm_def ms_def Let_def)
    next
      case Abort
      then show ?thesis using for_orphans_no_Abort [OF ism, of e ms] by simp
    next
      case OutOfFuel
      then show ?thesis using for_orphans_not_OutOfFuel [of e ms sm] by simp
    qed
  qed
qed

lemma orphan_work_terminates:
  assumes rk: "acyclic_orphans rk orph"
  shows "orphanTxMgr (fst sl) = orph \<Longrightarrow> \<exists>k. orphan_work k e sl \<noteq> OutOfFuel"
proof -
  define M where "M = sum_list (map (\<lambda>mi. rk (GetHash (otx mi))) orph)"
  define w where "w = (\<lambda>outp :: COutPoint. Suc M - rk (op_hash outp))"
  have bound: "rk (GetHash (otx mi)) \<le> M" if "mi \<in> set orph" for mi
    unfolding M_def using that by (induction orph) auto
  have child: "w q < w front"
    if "mi \<in> set (FindOrphanTransactionsByPrev orph front)" "op_hash q = GetHash (otx mi)"
    for mi q front
  proof -
    from that(1) have mi: "mi \<in> set orph" and "front \<in> set (map prevout (vin (otx mi)))"
      by (simp_all add: FindOrphanTransactionsByPrev_def)
    then obtain txin where "txin \<in> set (vin (otx mi))" "prevout txin = front" by auto
    then have "rk (op_hash front) < rk (GetHash (otx mi))"
      using rk mi by (auto simp: acyclic_orphans_def)
    then show ?thesis using bound [OF mi] that(2) by (simp add: w_def)
  qed
  have "\<forall>sl. image_mset w (mset (vWorkQueue (snd sl))) = Q \<longrightarrow> orphanTxMgr (fst sl) = orph \<longrightarrow>
          (\<exists>k. orphan_work k e sl \<noteq> OutOfFuel)" for Q
  proof (induction Q rule: wfp_induct_rule [OF wfp_less_multiset [OF wfp_on_less]])
    case (1 Q)
    show ?case
    proof (intro allI impI)
      fix sl :: "node \<times> locals"
      assume Q: "image_mset w (mset (vWorkQueue (snd sl))) = Q"
        and orph: "orphanTxMgr (fst sl) = orph"
      show "\<exists>k. orphan_work k e sl \<noteq> OutOfFuel"
      proof (cases "vWorkQueue (snd sl)")
        case Nil
        then have "orphan_work 0 e sl \<noteq> OutOfFuel" by simp
        then show ?thesis ..
      next
        case (Cons front rest)
        define sm where "sm = (fst sl, (snd sl)\<lparr>vWorkQueue := rest\<rparr>)"
        define ms where "ms = FindOrphanTransactionsByPrev orph front"
        have Qeq: "Q = image_mset w (mset rest) + {#w front#}"
          using Q Cons by simp
        show ?thesis
        proof (cases "ms = []")
          case True
          have "image_mset w (mset (vWorkQueue (snd sm))) < Q"
            unfolding Qeq less_multiset_def
            by (simp add: sm_def subset_implies_multp)
          then obtain k where "orphan_work k e sm \<noteq> OutOfFuel"
            using "1.IH" orph by (fastforce simp: sm_def)
          then have "orphan_work (Suc k) e sl \<noteq> OutOfFuel"
            using Cons True orph by (simp add: sm_def ms_def Let_def)
          then show ?thesis ..
        next
          case False
          show ?thesis
          proof (cases "for_orphans e ms sm")
            case (Returned sn)
            from for_orphans_queue [OF Returned] obtain add where
              add: "vWorkQueue (snd sn) = rest @ add"
                "\<forall>q \<in> set add. \<exists>mi \<in> set ms. op_hash q = GetHash (otx mi)"
              by (auto simp: sm_def)
            have "multp (<) (image_mset w (mset rest) + image_mset w (mset add))
                    (image_mset w (mset rest) + {#w front#})"
            proof (rule one_step_implies_multp)
              show "{#w front#} \<noteq> {#}" by simp
              show "\<forall>k \<in># image_mset w (mset add). \<exists>j \<in># {#w front#}. k < j"
                using add(2) child by (auto simp: ms_def)
            qed
            then have less: "image_mset w (mset (vWorkQueue (snd sn))) < Q"
              unfolding Qeq by (simp add: add(1) less_multiset_def)
            have "orphanTxMgr (fst sn) = orph"
              using for_orphans_orphans [OF Returned] orph by (simp add: sm_def)
            then obtain k where "orphan_work k e sn \<noteq> OutOfFuel"
              using "1.IH" less by blast
            then have "orphan_work (Suc k) e sl \<noteq> OutOfFuel"
              using Cons False orph Returned by (simp add: sm_def ms_def Let_def)
            then show ?thesis ..
          next
            case Abort
            then have "orphan_work (Suc 0) e sl \<noteq> OutOfFuel"
              using Cons False orph by (simp add: sm_def ms_def Let_def)
            then show ?thesis ..
          next
            case OutOfFuel
            then show ?thesis using for_orphans_not_OutOfFuel [of e ms sm] by simp
          qed
        qed
      qed
    qed
  qed
  then show "orphanTxMgr (fst sl) = orph \<Longrightarrow> \<exists>k. orphan_work k e sl \<noteq> OutOfFuel"
    by blast
qed

lemma query_rejects_initialised:
  "recentRejects s \<noteq> None \<Longrightarrow> recentRejects (snd (query_rejects e s h)) \<noteq> None"
  by (auto simp: query_rejects_def split: option.splits)

lemma DoesTxExist_initialised:
  "recentRejects s \<noteq> None \<Longrightarrow> recentRejects (snd (DoesTxExist e s h)) \<noteq> None"
  by (simp add: DoesTxExist_snd query_rejects_initialised)

lemma reject_branch_returns:
  "recentRejects s \<noteq> None \<Longrightarrow> \<exists>s'. reject_branch e s xnode t st = Returned s'"
  by (auto simp: reject_branch_def Let_def split: option.splits)

lemma missing_branch_returns:
  "recentRejects s \<noteq> None \<Longrightarrow> \<exists>s'. missing_branch e s xnode t = Returned s'"
  by (auto simp: missing_branch_def rejected_parents_def Let_def split: option.splits prod.splits)

lemma accept_branch_returns:
  assumes "recentRejects s \<noteq> None" and "acyclic_orphans rk (orphanTxMgr s)"
  shows "\<exists>fuel res. accept_branch fuel e s xnode t removed = Returned res"
proof -
  define sl where "sl = (emit [MempoolCheck, BroadcastTransaction (GetHash t)] s,
     \<lparr>vWorkQueue = outpoints_of t, vEraseQueue = [], lRemovedTxn = removed,
      setMisbehaving = {}\<rparr>)"
  have "orphanTxMgr (fst sl) = orphanTxMgr s" by (simp add: sl_def emit_fields)
  from orphan_work_terminates [OF assms(2) this]
  obtain k where k: "orphan_work k e sl \<noteq> OutOfFuel" by blast
  have "recentRejects (fst sl) \<noteq> None" using assms(1) by (simp add: sl_def emit_fields)
  then have "orphan_work k e sl \<noteq> Abort" by (rule orphan_work_no_Abort)
  with k obtain sl' where "orphan_work k e sl = Returned sl'"
    by (cases "orphan_work k e sl") auto
  then have "\<exists>res. accept_branch k e s xnode t removed = Returned res"
    by (cases sl') (simp add: accept_branch_def Let_def sl_def)
  then show ?thesis ..
qed

subsection \<open>A concrete run\<close>

lemmas sample_defs = txP_def orphC_def orphQ_def orphQ2_def orphM_def node1_def node0_def
  env0_def peerA_def sample_atmp_def fresh_state_def

lemma sample_run: "NetReceiveTxData 3 env0 node1 peerA txP = Returned res1"
  by (simp add: res1_def sample_defs NetReceiveTxData_def relay_gate_def IsFlagsBitOn_def
      SetFlagsBit_def DoesTxExist_def query_rejects_def mempool_exists_def info_def
      orphan_Exists_def accept_branch_def outpoints_of_def numeral_3_eq_3
      FindOrphanTransactionsByPrev_def process_orphan_def Let_def emit_def IsInvalid_def
      erase_all_def EraseOrphanTx_def report_def reject_msg_def upt_rec)

subsection \<open>The branch for invalid and known transactions\<close>

lemma emit_emit: "emit es2 (emit es1 s) = emit (es1 @ es2) s"
  by (simp add: emit_def)

lemma emit_Nil: "emit [] s = s"
  by (simp add: emit_def)

lemma reject_branch_eq:
  assumes "recentRejects s = Some rr"
  shows "reject_branch e s xnode t st =
     Returned (emit
       ((if \<not> HasWitness t \<and> \<not> CorruptionPossible st
         then [RecentRejectsInsert (GetHash t)] else []) @
        (if (HasWitness t \<or> \<not> CorruptionPossible st) \<and> RecursiveDynamicUsage t < 100000
         then [AddToCompactExtraTransactions t] else []) @
        (if IsFlagsBitOn (flags xnode) NF_WHITELIST \<and> whitelistforcerelay e \<and>
            (\<not> IsInvalid st \<or> nDoS st = 0)
         then [BroadcastTransaction (GetHash t)] else []))
       (s\<lparr>recentRejects :=
            Some (if \<not> HasWitness t \<and> \<not> CorruptionPossible st
                  then insert (GetHash t) rr else rr)\<rparr>))"
  using assms by (auto simp: reject_branch_def emit_def Let_def)

lemma DoesTxExist_mempool:
  "mempool_exists (pool s) h \<Longrightarrow> fst (DoesTxExist e s h)"
  using query_rejects_fields(2) [of e s h]
  by (cases "query_rejects e s h") (simp add: DoesTxExist_def)

subsection \<open>The relay cache\<close>

lemma expire_loop_queue:
  "snd (expire_loop nNow m q) = dropWhile (\<lambda>x. fst x < nNow) q"
  by (induction q arbitrary: m) auto

lemma expire_loop_map:
  "fst (expire_loop nNow m q) h =
     (if h \<in> snd ` set (takeWhile (\<lambda>x. fst x < nNow) q) then None else m h)"
  by (induction q arbitrary: m) auto

lemma sorted_dropWhile_ge:
  "sorted (map fst q) \<Longrightarrow> x \<in> set (dropWhile (\<lambda>x. fst x < nNow) q) \<Longrightarrow> (nNow :: int) \<le> fst x"
  by (induction q) (auto split: if_splits)

lemma sorted_takeWhile_all:
  "sorted (map fst q) \<Longrightarrow> x \<in> set q \<Longrightarrow> fst x < (nNow :: int) \<Longrightarrow>
     x \<in> set (takeWhile (\<lambda>x. fst x < nNow) q)"
  by (induction q) (auto split: if_splits)

lemma expire_relay_fields:
  "vRelayExpiration (expire_relay nNow s) = dropWhile (\<lambda>x. fst x < nNow) (vRelayExpiration s)"
  "mapRelay (expire_relay nNow s) h =
     (if h \<in> snd ` set (takeWhile (\<lambda>x. fst x < nNow) (vRelayExpiration s)) then None
      else mapRelay s h)"
  by (simp_all add: expire_relay_def case_prod_beta expire_loop_queue expire_loop_map)

lemma relay_wf_expire:
  assumes "relay_wf s"
  shows "relay_wf (expire_relay nNow s)"
proof -
  let ?q = "vRelayExpiration s"
  let ?P = "\<lambda>x :: int \<times> uint256. fst x < nNow"
  have q: "?q = takeWhile ?P ?q @ dropWhile ?P ?q" by simp
  have s: "sorted (map fst (dropWhile ?P ?q))"
    using assms by (metis relay_wf_def sorted_wrt_dropWhile sorted_map)
  have d: "distinct (map snd ?q)" using assms by (simp add: relay_wf_def)
  then have d1: "distinct (map snd (takeWhile ?P ?q) @ map snd (dropWhile ?P ?q))"
    by (metis map_append q)
  then have d2: "distinct (map snd (dropWhile ?P ?q))" by simp
  have disj: "snd ` set (takeWhile ?P ?q) \<inter> snd ` set (dropWhile ?P ?q) = {}"
    using d1 by auto
  have "set (map snd ?q) = snd ` set (takeWhile ?P ?q) \<union> snd ` set (dropWhile ?P ?q)"
    by (metis image_Un q set_append set_map)
  then have "dom (mapRelay (expire_relay nNow s)) = snd ` set (dropWhile ?P ?q)"
    using assms disj by (auto simp: relay_wf_def expire_relay_fields dom_def split: if_splits)
  then show ?thesis using s d2 by (simp add: relay_wf_def expire_relay_fields)
qed

lemma nodeR_eq:
  "nodeR = node0\<lparr>mapRelay := [10 \<mapsto> txA, 11 \<mapsto> txB],
                 vRelayExpiration := [(900001000, 10), (900002000, 11)]\<rparr>"
  by (simp add: nodeR_def relay_insert_def node0_def RELAY_TTL_def)

subsection \<open>The mempool dump\<close>

lemma inv_hashes_append: "inv_hashes (a @ b) = inv_hashes a @ inv_hashes b"
  by (induction a rule: inv_hashes.induct) auto

lemma advertise_fields:
  "toSendTxHashes (advertise xnode h st) = toSendTxHashes st"
  "txFilter (advertise xnode h st) = txFilter st"
  "haveSentTxHashes (advertise xnode h st) = haveSentTxHashes st @ [h]"
  "pool (eg_node (advertise xnode h st)) = pool (eg_node st)"
  by (simp_all add: advertise_def flush_if_full_def emit_fields)

lemma advertise_inventory:
  assumes "vInv st = v" and "calls (eg_node st) = c"
  shows "\<exists>evs. calls (eg_node (advertise xnode h st)) = c @ evs \<and>
           inv_hashes evs @ vInv (advertise xnode h st) = v @ [h]"
  using assms by (auto simp: advertise_def flush_if_full_def emit_fields)

lemma send_mempool_entry_fields:
  "toSendTxHashes (send_mempool_entry upd xnode m st x) =
     remove1 (GetHash (tx x)) (toSendTxHashes st)"
  "txFilter (send_mempool_entry upd xnode m st x) = filter_after upd m (txFilter st) x"
  "haveSentTxHashes (send_mempool_entry upd xnode m st x) =
     haveSentTxHashes st @ (if passes upd m (txFilter st) x then [GetHash (tx x)] else [])"
  "pool (eg_node (send_mempool_entry upd xnode m st x)) = pool (eg_node st)"
  by (simp_all add: send_mempool_entry_def Let_def advertise_fields passes_def filter_after_def
      split: option.splits prod.splits)

lemma send_mempool_entry_inventory:
  "\<exists>evs. calls (eg_node (send_mempool_entry upd xnode m st x)) = calls (eg_node st) @ evs \<and>
         inv_hashes evs @ vInv (send_mempool_entry upd xnode m st x) =
           vInv st @ (if passes upd m (txFilter st) x then [GetHash (tx x)] else [])"
proof (cases "passes upd m (txFilter st) x")
  case False
  then have "calls (eg_node (send_mempool_entry upd xnode m st x)) = calls (eg_node st) @ [] \<and>
      inv_hashes [] @ vInv (send_mempool_entry upd xnode m st x) = vInv st @ []"
    by (auto simp: send_mempool_entry_def Let_def passes_def split: option.splits prod.splits)
  then show ?thesis using False by (intro exI [of _ "[]"]) simp
next
  case True
  define st1 where "st1 = st\<lparr>toSendTxHashes := remove1 (GetHash (tx x)) (toSendTxHashes st)\<rparr>"
  define st2 where "st2 = (case txFilter st of None \<Rightarrow> st1
                           | Some f \<Rightarrow> st1\<lparr>txFilter := Some (snd (upd f (tx x)))\<rparr>)"
  have eq: "send_mempool_entry upd xnode m st x = advertise xnode (GetHash (tx x)) st2"
    using True
    by (auto simp: send_mempool_entry_def Let_def passes_def st1_def st2_def
        split: option.splits prod.splits)
  have "vInv st2 = vInv st" "calls (eg_node st2) = calls (eg_node st)"
    by (simp_all add: st2_def st1_def split: option.splits)
  from advertise_inventory [OF this, of xnode "GetHash (tx x)"]
  show ?thesis using True eq by simp
qed

lemma dump_fold:
  "haveSentTxHashes (foldl (send_mempool_entry upd xnode m) st xs) =
     haveSentTxHashes st @ map (\<lambda>x. GetHash (tx x)) (dump_selected upd m (txFilter st) xs) \<and>
   toSendTxHashes (foldl (send_mempool_entry upd xnode m) st xs) =
     foldl (\<lambda>ts x. remove1 (GetHash (tx x)) ts) (toSendTxHashes st) xs \<and>
   (\<exists>evs. calls (eg_node (foldl (send_mempool_entry upd xnode m) st xs)) =
            calls (eg_node st) @ evs \<and>
          inv_hashes evs @ vInv (foldl (send_mempool_entry upd xnode m) st xs) =
            vInv st @ map (\<lambda>x. GetHash (tx x)) (dump_selected upd m (txFilter st) xs))"
proof (induction xs arbitrary: st)
  case Nil
  then show ?case by simp
next
  case (Cons x xs)
  let ?st1 = "send_mempool_entry upd xnode m st x"
  let ?st' = "foldl (send_mempool_entry upd xnode m) ?st1 xs"
  let ?one = "if passes upd m (txFilter st) x then [GetHash (tx x)] else []"
  let ?sel = "map (\<lambda>x. GetHash (tx x)) (dump_selected upd m (filter_after upd m (txFilter st) x) xs)"
  from Cons.IH [of ?st1] obtain evs where
    h: "haveSentTxHashes ?st' = haveSentTxHashes ?st1 @ ?sel"
    and t: "toSendTxHashes ?st' =
              foldl (\<lambda>ts x. remove1 (GetHash (tx x)) ts) (toSendTxHashes ?st1) xs"
    and c: "calls (eg_node ?st') = calls (eg_node ?st1) @ evs"
    and i: "inv_hashes evs @ vInv ?st' = vInv ?st1 @ ?sel"
    by (auto simp: send_mempool_entry_fields)
  from send_mempool_entry_inventory [of upd xnode m st x] obtain evs1 where
    c1: "calls (eg_node ?st1) = calls (eg_node st) @ evs1"
    and i1: "inv_hashes evs1 @ vInv ?st1 = vInv st @ ?one"
    by blast
  have sel: "map (\<lambda>x. GetHash (tx x)) (dump_selected upd m (txFilter st) (x # xs)) = ?one @ ?sel"
    by simp
  have "calls (eg_node ?st') = calls (eg_node st) @ (evs1 @ evs)"
    using c c1 by simp
  moreover have "inv_hashes (evs1 @ evs) @ vInv ?st' = vInv st @ ?one @ ?sel"
    using i i1 by (simp add: inv_hashes_append)
  ultimately have "\<exists>evs. calls (eg_node ?st') = calls (eg_node st) @ evs \<and>
          inv_hashes evs @ vInv ?st' = vInv st @ ?one @ ?sel"
    by blast
  then show ?case
    using h t by (simp only: foldl_Cons sel) (simp add: send_mempool_entry_fields)
qed

lemma remove_all_distinct:
  "distinct ts \<Longrightarrow>
     distinct (foldl (\<lambda>ts x. remove1 (f x) ts) ts xs) \<and>
     set (foldl (\<lambda>ts x. remove1 (f x) ts) ts xs) = set ts - f ` set xs"
  by (induction xs arbitrary: ts) auto

lemma dump_selected_subset: "set (dump_selected upd m flt xs) \<subseteq> set xs"
  by (induction xs arbitrary: flt) (auto split: if_splits)

subsection \<open>One orphan at a time, and the accepted path as a whole\<close>

lemma process_orphan_cases:
  assumes "process_orphan e mi (s, l) = Returned (s', l')"
  obtains
    (skip) "fromPeer mi \<in> setMisbehaving l" "s' = s" "l' = l"
  | (accept) "fromPeer mi \<notin> setMisbehaving l"
      "accepted (AcceptToMemoryPool e (pool s) (otx mi))"
      "calls s' = calls s @ [CallAcceptToMemoryPool (otx mi),
                             BroadcastTransaction (GetHash (otx mi)), MempoolCheck]"
      "vEraseQueue l' = vEraseQueue l @ [GetHash (otx mi)]"
      "setMisbehaving l' = setMisbehaving l"
      "recentRejects s' = recentRejects s"
  | (missing) "fromPeer mi \<notin> setMisbehaving l"
      "\<not> accepted (AcceptToMemoryPool e (pool s) (otx mi))"
      "fMissingInputs (AcceptToMemoryPool e (pool s) (otx mi))"
      "calls s' = calls s @ [CallAcceptToMemoryPool (otx mi), MempoolCheck]"
      "vEraseQueue l' = vEraseQueue l"
      "setMisbehaving l' = setMisbehaving l"
      "recentRejects s' = recentRejects s"
  | (invalid) "fromPeer mi \<notin> setMisbehaving l"
      "\<not> accepted (AcceptToMemoryPool e (pool s) (otx mi))"
      "\<not> fMissingInputs (AcceptToMemoryPool e (pool s) (otx mi))"
      "calls s' = calls s @ [CallAcceptToMemoryPool (otx mi)] @
         (if IsInvalid (vstate (AcceptToMemoryPool e (pool s) (otx mi))) \<and>
             nDoS (vstate (AcceptToMemoryPool e (pool s) (otx mi))) > 0
          then [MisbehaveNode (fromPeer mi) (nDoS (vstate (AcceptToMemoryPool e (pool s) (otx mi))))]
          else []) @
         (if \<not> HasWitness (otx mi) \<and>
             \<not> CorruptionPossible (vstate (AcceptToMemoryPool e (pool s) (otx mi)))
          then [RecentRejectsInsert (GetHash (otx mi))] else []) @
         [MempoolCheck]"
      "vEraseQueue l' = vEraseQueue l @ [GetHash (otx mi)]"
      "setMisbehaving l' =
         (if IsInvalid (vstate (AcceptToMemoryPool e (pool s) (otx mi))) \<and>
             nDoS (vstate (AcceptToMemoryPool e (pool s) (otx mi))) > 0
          then insert (fromPeer mi) (setMisbehaving l) else setMisbehaving l)"
      "recentRejects s' =
         (if \<not> HasWitness (otx mi) \<and>
             \<not> CorruptionPossible (vstate (AcceptToMemoryPool e (pool s) (otx mi)))
          then map_option (insert (GetHash (otx mi))) (recentRejects s) else recentRejects s)"
proof (cases "fromPeer mi \<in> setMisbehaving l")
  case True
  then have "s' = s" "l' = l" using assms by (simp_all add: process_orphan_def)
  then show ?thesis by (rule skip [OF True])
next
  case np: False
  show ?thesis
  proof (cases "accepted (AcceptToMemoryPool e (pool s) (otx mi))")
    case True
    have "s' = emit [BroadcastTransaction (GetHash (otx mi)), MempoolCheck]
                 (emit [CallAcceptToMemoryPool (otx mi)]
                    (s\<lparr>pool := newpool (AcceptToMemoryPool e (pool s) (otx mi))\<rparr>))"
      and "vEraseQueue l' = vEraseQueue l @ [GetHash (otx mi)]"
      and "setMisbehaving l' = setMisbehaving l"
      using assms np True by (auto simp: process_orphan_def Let_def)
    then show ?thesis using accept [OF np True] by (simp add: emit_fields)
  next
    case na: False
    show ?thesis
    proof (cases "fMissingInputs (AcceptToMemoryPool e (pool s) (otx mi))")
      case True
      have "s' = emit [MempoolCheck]
                 (emit [CallAcceptToMemoryPool (otx mi)]
                    (s\<lparr>pool := newpool (AcceptToMemoryPool e (pool s) (otx mi))\<rparr>))"
        and "vEraseQueue l' = vEraseQueue l"
        and "setMisbehaving l' = setMisbehaving l"
        using assms np na True by (auto simp: process_orphan_def Let_def)
      then show ?thesis using missing [OF np na True] by (simp add: emit_fields)
    next
      case False
      show ?thesis
      proof (rule invalid [OF np na False])
        show "calls s' = calls s @ [CallAcceptToMemoryPool (otx mi)] @
         (if IsInvalid (vstate (AcceptToMemoryPool e (pool s) (otx mi))) \<and>
             nDoS (vstate (AcceptToMemoryPool e (pool s) (otx mi))) > 0
          then [MisbehaveNode (fromPeer mi) (nDoS (vstate (AcceptToMemoryPool e (pool s) (otx mi))))]
          else []) @
         (if \<not> HasWitness (otx mi) \<and>
             \<not> CorruptionPossible (vstate (AcceptToMemoryPool e (pool s) (otx mi)))
          then [RecentRejectsInsert (GetHash (otx mi))] else []) @
         [MempoolCheck]"
          using assms np na False
          by (auto simp: process_orphan_def Let_def emit_def split: option.splits if_splits)
        show "vEraseQueue l' = vEraseQueue l @ [GetHash (otx mi)]"
          using assms np na False
          by (auto simp: process_orphan_def Let_def emit_def split: option.splits if_splits)
        show "setMisbehaving l' =
         (if IsInvalid (vstate (AcceptToMemoryPool e (pool s) (otx mi))) \<and>
             nDoS (vstate (AcceptToMemoryPool e (pool s) (otx mi))) > 0
          then insert (fromPeer mi) (setMisbehaving l) else setMisbehaving l)"
          using assms np na False
          by (auto simp: process_orphan_def Let_def emit_def split: option.splits if_splits)
        show "recentRejects s' =
         (if \<not> HasWitness (otx mi) \<and>
             \<not> CorruptionPossible (vstate (AcceptToMemoryPool e (pool s) (otx mi)))
          then map_option (insert (GetHash (otx mi))) (recentRejects s) else recentRejects s)"
          using assms np na False
          by (auto simp: process_orphan_def Let_def emit_def split: option.splits if_splits)
      qed
    qed
  qed
qed

lemma EraseOrphanTx_snd:
  "snd (EraseOrphanTx orph h) = filter (\<lambda>x. GetHash (otx x) \<noteq> h) orph"
proof (cases "orphan_Exists orph h")
  case True
  then show ?thesis by (simp add: EraseOrphanTx_def)
next
  case False
  then have "\<forall>x \<in> set orph. GetHash (otx x) \<noteq> h" by (simp add: orphan_Exists_def)
  then have "filter (\<lambda>x. GetHash (otx x) \<noteq> h) orph = orph" by (rule filter_True)
  then show ?thesis using False by (simp add: EraseOrphanTx_def)
qed

lemma erase_all_filter:
  "erase_all hs orph = filter (\<lambda>x. GetHash (otx x) \<notin> set hs) orph"
proof (induction hs arbitrary: orph)
  case Nil
  then show ?case by (simp add: erase_all_def)
next
  case (Cons h hs)
  have "erase_all (h # hs) orph = erase_all hs (snd (EraseOrphanTx orph h))"
    by (simp add: erase_all_def)
  also have "\<dots> = filter (\<lambda>x. GetHash (otx x) \<notin> set hs) (filter (\<lambda>x. GetHash (otx x) \<noteq> h) orph)"
    by (simp only: Cons.IH EraseOrphanTx_snd)
  also have "\<dots> = filter (\<lambda>x. GetHash (otx x) \<notin> set (h # hs)) orph"
    by (simp add: conj_commute)
  finally show ?case .
qed

lemma orphan_work_missing_untouched:
  assumes wf: "distinct (map (\<lambda>x. GetHash (otx x)) (orphanTxMgr s))"
    and mi: "mi \<in> set (orphanTxMgr s)"
    and am: "always_missing e mi"
    and run: "orphan_work k e (s, l) = Returned (s', l')"
    and h0: "GetHash (otx mi) \<notin> set (vEraseQueue l)"
  shows "GetHash (otx mi) \<notin> set (vEraseQueue l') \<and> orphanTxMgr s' = orphanTxMgr s \<and>
         (\<exists>es. calls s' = calls s @ es \<and>
            RecentRejectsInsert (GetHash (otx mi)) \<notin> set es \<and>
            ((\<forall>mj \<in> set (orphanTxMgr s). fromPeer mj = fromPeer mi \<longrightarrow> always_missing e mj) \<longrightarrow>
             (\<forall>d. MisbehaveNode (fromPeer mi) d \<notin> set es)))"
proof -
  define h where "h = GetHash (otx mi)"
  define H where "H = (\<forall>mj \<in> set (orphanTxMgr s). fromPeer mj = fromPeer mi \<longrightarrow> always_missing e mj)"
  define I where "I = (\<lambda>a :: node \<times> locals.
     orphanTxMgr (fst a) = orphanTxMgr s \<and> h \<notin> set (vEraseQueue (snd a)) \<and>
     (\<exists>es. calls (fst a) = calls s @ es \<and> RecentRejectsInsert h \<notin> set es \<and>
        (H \<longrightarrow> (\<forall>d. MisbehaveNode (fromPeer mi) d \<notin> set es))))"
  have same: "mj = mi" if "mj \<in> set (orphanTxMgr s)" "GetHash (otx mj) = h" for mj
    using wf mi that by (auto simp: h_def distinct_map inj_on_def)
  have "I (s', l')"
  proof (rule orphan_work_inv [OF run, where I = I])
    show "I (s, l)" using h0 by (simp add: I_def h_def)
  next
    fix a q
    assume "I a"
    then show "I (fst a, (snd a)\<lparr>vWorkQueue := q\<rparr>)" by (simp add: I_def)
  next
    fix mj a b
    assume a: "I a" and mj: "mj \<in> set (orphanTxMgr (fst a))"
      and p: "process_orphan e mj a = Returned b"
    from a obtain es where es: "calls (fst a) = calls s @ es"
      "RecentRejectsInsert h \<notin> set es" "H \<longrightarrow> (\<forall>d. MisbehaveNode (fromPeer mi) d \<notin> set es)"
      and oa: "orphanTxMgr (fst a) = orphanTxMgr s" and ha: "h \<notin> set (vEraseQueue (snd a))"
      by (auto simp: I_def)
    have mjs: "mj \<in> set (orphanTxMgr s)" using mj oa by simp
    have ob: "orphanTxMgr (fst b) = orphanTxMgr s"
      using process_orphan_orphans [OF p] oa by simp
    obtain sa la sb lb where ab: "a = (sa, la)" "b = (sb, lb)"
      by (cases a, cases b) auto
    from p [unfolded ab] show "I b"
    proof (cases rule: process_orphan_cases)
      case skip
      then show ?thesis using a ab by simp
    next
      case accept
      have ne: "GetHash (otx mj) \<noteq> h"
        using same [OF mjs] am accept(2) by (auto simp: always_missing_def)
      have "calls (fst b) = calls s @ (es @ [CallAcceptToMemoryPool (otx mj),
                BroadcastTransaction (GetHash (otx mj)), MempoolCheck])"
        using accept(3) es(1) ab by simp
      moreover have "RecentRejectsInsert h \<notin> set (es @ [CallAcceptToMemoryPool (otx mj),
                BroadcastTransaction (GetHash (otx mj)), MempoolCheck])"
        using es(2) by simp
      moreover have "H \<longrightarrow> (\<forall>d. MisbehaveNode (fromPeer mi) d \<notin> set (es @
                [CallAcceptToMemoryPool (otx mj),
                 BroadcastTransaction (GetHash (otx mj)), MempoolCheck]))"
        using es(3) by simp
      ultimately show ?thesis
        unfolding I_def using ob ha ne accept(4) ab by (simp only: fst_conv snd_conv) auto
    next
      case missing
      have "calls (fst b) = calls s @ (es @ [CallAcceptToMemoryPool (otx mj), MempoolCheck])"
        using missing(4) es(1) ab by simp
      moreover have "RecentRejectsInsert h \<notin> set (es @ [CallAcceptToMemoryPool (otx mj), MempoolCheck])"
        using es(2) by simp
      moreover have "H \<longrightarrow> (\<forall>d. MisbehaveNode (fromPeer mi) d \<notin> set (es @
                [CallAcceptToMemoryPool (otx mj), MempoolCheck]))"
        using es(3) by simp
      ultimately show ?thesis
        unfolding I_def using ob ha missing(5) ab by (simp only: fst_conv snd_conv) auto
    next
      case invalid
      let ?new = "[CallAcceptToMemoryPool (otx mj)] @
         (if IsInvalid (vstate (AcceptToMemoryPool e (pool sa) (otx mj))) \<and>
             nDoS (vstate (AcceptToMemoryPool e (pool sa) (otx mj))) > 0
          then [MisbehaveNode (fromPeer mj) (nDoS (vstate (AcceptToMemoryPool e (pool sa) (otx mj))))]
          else []) @
         (if \<not> HasWitness (otx mj) \<and>
             \<not> CorruptionPossible (vstate (AcceptToMemoryPool e (pool sa) (otx mj)))
          then [RecentRejectsInsert (GetHash (otx mj))] else []) @
         [MempoolCheck]"
      have ne: "GetHash (otx mj) \<noteq> h"
        using same [OF mjs] am invalid(3) by (auto simp: always_missing_def)
      have np: "H \<longrightarrow> fromPeer mj \<noteq> fromPeer mi"
        using mjs invalid(3) by (auto simp: H_def always_missing_def)
      have "calls (fst b) = calls s @ (es @ ?new)"
        using invalid(4) es(1) ab by simp
      moreover have "RecentRejectsInsert h \<notin> set (es @ ?new)"
        using es(2) ne by auto
      moreover have "H \<longrightarrow> (\<forall>d. MisbehaveNode (fromPeer mi) d \<notin> set (es @ ?new))"
        using es(3) np by auto
      ultimately show ?thesis
        unfolding I_def using ob ha ne invalid(5) ab by (simp only: fst_conv snd_conv) auto
    qed
  qed
  then show ?thesis by (simp add: I_def h_def H_def)
qed

lemma NetReceiveTxData_accept:
  assumes "\<not> relay_gate e xnode"
    and "\<not> fst (DoesTxExist e s (GetHash t))"
    and "accepted (AcceptToMemoryPool e (pool s) t)"
    and "NetReceiveTxData fuel e s xnode t = Returned res"
  obtains s2 l2 where
    "orphan_work fuel e
       (emit [CallAcceptToMemoryPool t, MempoolCheck, BroadcastTransaction (GetHash t)]
          ((snd (DoesTxExist e s (GetHash t)))\<lparr>pool := newpool (AcceptToMemoryPool e (pool s) t)\<rparr>),
        \<lparr>vWorkQueue = outpoints_of t, vEraseQueue = [],
         lRemovedTxn = removedTxn (AcceptToMemoryPool e (pool s) t), setMisbehaving = {}\<rparr>) =
      Returned (s2, l2)"
    "rx_node res =
       emit (map AddToCompactExtraTransactions (lRemovedTxn l2) @
             (if IsInvalid (vstate (AcceptToMemoryPool e (pool s) t))
              then reject_msg e xnode t (vstate (AcceptToMemoryPool e (pool s) t)) else []))
         (s2\<lparr>orphanTxMgr := erase_all (vEraseQueue l2) (orphanTxMgr s2)\<rparr>)"
proof -
  obtain known sa where d: "DoesTxExist e s (GetHash t) = (known, sa)"
    by (cases "DoesTxExist e s (GetHash t)")
  have k: "\<not> known" using assms(2) d by simp
  have pa: "pool sa = pool s"
    using DoesTxExist_fields(2) [of e s "GetHash t"] d by simp
  define r where "r = AcceptToMemoryPool e (pool sa) t"
  have r_eq: "r = AcceptToMemoryPool e (pool s) t" using pa by (simp add: r_def)
  have acc: "accepted r" using assms(3) r_eq by simp
  define sb where "sb = emit [CallAcceptToMemoryPool t] (sa\<lparr>pool := newpool r\<rparr>)"
  have ab: "(case accept_branch fuel e sb xnode t (removedTxn r) of
              Returned (s3, xnode1, removed) \<Rightarrow>
                Returned (report e s3 xnode1 t (vstate r) removed)
            | Abort \<Rightarrow> Abort | OutOfFuel \<Rightarrow> OutOfFuel) = Returned res"
    unfolding r_def sb_def
    using assms(1,4) acc [unfolded r_def] d k by (simp add: NetReceiveTxData_def Let_def)
  then obtain s3 xnode1 removed where
    a: "accept_branch fuel e sb xnode t (removedTxn r) = Returned (s3, xnode1, removed)"
    and res: "res = report e s3 xnode1 t (vstate r) removed"
    by (auto split: outcome.splits)
  define sl where "sl = (emit [MempoolCheck, BroadcastTransaction (GetHash t)] sb,
     \<lparr>vWorkQueue = outpoints_of t, vEraseQueue = [], lRemovedTxn = removedTxn r,
      setMisbehaving = {}\<rparr>)"
  from a obtain s2 l2 where w: "orphan_work fuel e sl = Returned (s2, l2)"
    and s3: "s3 = s2\<lparr>orphanTxMgr := erase_all (vEraseQueue l2) (orphanTxMgr s2)\<rparr>"
    and rem: "removed = lRemovedTxn l2"
    and x1: "xnode1 = xnode\<lparr>retFlags := SetFlagsBit (retFlags xnode) NF_NEWTRANSACTION\<rparr>"
    by (auto simp: accept_branch_def Let_def sl_def split: outcome.splits)
  have rm: "reject_msg e xnode1 t (vstate r) = reject_msg e xnode t (vstate r)"
    by (simp add: reject_msg_def x1)
  have sl_eq: "sl = (emit [CallAcceptToMemoryPool t, MempoolCheck, BroadcastTransaction (GetHash t)]
          ((snd (DoesTxExist e s (GetHash t)))\<lparr>pool := newpool (AcceptToMemoryPool e (pool s) t)\<rparr>),
        \<lparr>vWorkQueue = outpoints_of t, vEraseQueue = [],
         lRemovedTxn = removedTxn (AcceptToMemoryPool e (pool s) t), setMisbehaving = {}\<rparr>)"
    using d by (simp add: sl_def sb_def r_eq emit_emit)
  show ?thesis
  proof (rule that [of s2 l2])
    show "orphan_work fuel e
       (emit [CallAcceptToMemoryPool t, MempoolCheck, BroadcastTransaction (GetHash t)]
          ((snd (DoesTxExist e s (GetHash t)))\<lparr>pool := newpool (AcceptToMemoryPool e (pool s) t)\<rparr>),
        \<lparr>vWorkQueue = outpoints_of t, vEraseQueue = [],
         lRemovedTxn = removedTxn (AcceptToMemoryPool e (pool s) t), setMisbehaving = {}\<rparr>) =
      Returned (s2, l2)"
      using w sl_eq by simp
    show "rx_node res =
       emit (map AddToCompactExtraTransactions (lRemovedTxn l2) @
             (if IsInvalid (vstate (AcceptToMemoryPool e (pool s) t))
              then reject_msg e xnode t (vstate (AcceptToMemoryPool e (pool s) t)) else []))
         (s2\<lparr>orphanTxMgr := erase_all (vEraseQueue l2) (orphanTxMgr s2)\<rparr>)"
      using res s3 rem rm by (simp add: report_node r_eq)
  qed
qed

lemma process_orphan_missing:
  assumes "fromPeer mi \<notin> setMisbehaving l"
    and "\<not> accepted (AcceptToMemoryPool e (pool s) (otx mi))"
    and "fMissingInputs (AcceptToMemoryPool e (pool s) (otx mi))"
  shows "process_orphan e mi (s, l) =
      Returned (emit [CallAcceptToMemoryPool (otx mi), MempoolCheck]
                  (s\<lparr>pool := newpool (AcceptToMemoryPool e (pool s) (otx mi))\<rparr>),
                l\<lparr>lRemovedTxn :=
                    lRemovedTxn l @ removedTxn (AcceptToMemoryPool e (pool s) (otx mi))\<rparr>)"
  using assms by (simp add: process_orphan_def Let_def emit_emit)

lemma missing_orphan_survives:
  assumes gate: "\<not> relay_gate e xnode"
    and unknown: "\<not> fst (DoesTxExist e s (GetHash t))"
    and acc: "accepted (AcceptToMemoryPool e (pool s) t)"
    and wf: "distinct (map (\<lambda>x. GetHash (otx x)) (orphanTxMgr s))"
    and mi: "mi \<in> set (orphanTxMgr s)"
    and am: "always_missing e mi"
    and run: "NetReceiveTxData fuel e s xnode t = Returned res"
  shows "mi \<in> set (orphanTxMgr (rx_node res)) \<and>
      (\<exists>es. calls (rx_node res) = calls s @ es \<and>
         RecentRejectsInsert (GetHash (otx mi)) \<notin> set es \<and>
         ((\<forall>mj \<in> set (orphanTxMgr s). fromPeer mj = fromPeer mi \<longrightarrow> always_missing e mj) \<longrightarrow>
          (\<forall>d. MisbehaveNode (fromPeer mi) d \<notin> set es)))"
proof -
  let ?r = "AcceptToMemoryPool e (pool s) t"
  let ?s0 = "emit [CallAcceptToMemoryPool t, MempoolCheck, BroadcastTransaction (GetHash t)]
          ((snd (DoesTxExist e s (GetHash t)))\<lparr>pool := newpool ?r\<rparr>)"
  let ?l0 = "\<lparr>vWorkQueue = outpoints_of t, vEraseQueue = [],
         lRemovedTxn = removedTxn ?r, setMisbehaving = {}\<rparr>"
  let ?H = "\<forall>mj \<in> set (orphanTxMgr s). fromPeer mj = fromPeer mi \<longrightarrow> always_missing e mj"
  from NetReceiveTxData_accept [OF gate unknown acc run] obtain s2 l2 where
    w: "orphan_work fuel e (?s0, ?l0) = Returned (s2, l2)"
    and res: "rx_node res =
       emit (map AddToCompactExtraTransactions (lRemovedTxn l2) @
             (if IsInvalid (vstate ?r) then reject_msg e xnode t (vstate ?r) else []))
         (s2\<lparr>orphanTxMgr := erase_all (vEraseQueue l2) (orphanTxMgr s2)\<rparr>)"
    by blast
  have o0: "orphanTxMgr ?s0 = orphanTxMgr s"
    by (simp add: emit_fields DoesTxExist_fields)
  have c0: "calls ?s0 = calls s @ [CallAcceptToMemoryPool t, MempoolCheck,
                                  BroadcastTransaction (GetHash t)]"
    by (simp add: emit_fields DoesTxExist_fields)
  from orphan_work_missing_untouched [OF _ _ am w, unfolded o0, OF wf mi]
  obtain es where e1: "GetHash (otx mi) \<notin> set (vEraseQueue l2)"
    and o2: "orphanTxMgr s2 = orphanTxMgr s"
    and c2: "calls s2 = calls ?s0 @ es"
    and nr: "RecentRejectsInsert (GetHash (otx mi)) \<notin> set es"
    and nm: "?H \<longrightarrow> (\<forall>d. MisbehaveNode (fromPeer mi) d \<notin> set es)"
    by auto
  show "mi \<in> set (orphanTxMgr (rx_node res)) \<and>
      (\<exists>es. calls (rx_node res) = calls s @ es \<and>
         RecentRejectsInsert (GetHash (otx mi)) \<notin> set es \<and>
         (?H \<longrightarrow> (\<forall>d. MisbehaveNode (fromPeer mi) d \<notin> set es)))"
  proof
    show "mi \<in> set (orphanTxMgr (rx_node res))"
      using mi e1 o2 by (simp add: res emit_fields erase_all_filter)
    let ?tail = "map AddToCompactExtraTransactions (lRemovedTxn l2) @
             (if IsInvalid (vstate ?r) then reject_msg e xnode t (vstate ?r) else [])"
    let ?all = "[CallAcceptToMemoryPool t, MempoolCheck, BroadcastTransaction (GetHash t)] @
                es @ ?tail"
    have "calls (rx_node res) = calls s @ ?all"
      using c2 c0 by (simp add: res emit_fields)
    moreover have "RecentRejectsInsert (GetHash (otx mi)) \<notin> set ?all"
      using nr by (auto simp: reject_msg_def)
    moreover have "?H \<longrightarrow> (\<forall>d. MisbehaveNode (fromPeer mi) d \<notin> set ?all)"
      using nm by (auto simp: reject_msg_def)
    ultimately show "\<exists>es. calls (rx_node res) = calls s @ es \<and>
         RecentRejectsInsert (GetHash (otx mi)) \<notin> set es \<and>
         (?H \<longrightarrow> (\<forall>d. MisbehaveNode (fromPeer mi) d \<notin> set es))"
      by blast
  qed
qed

lemmas run_defs = NetReceiveTxData_def relay_gate_def IsFlagsBitOn_def SetFlagsBit_def
      DoesTxExist_def query_rejects_def mempool_exists_def info_def orphan_Exists_def
      accept_branch_def outpoints_of_def numeral_3_eq_3 FindOrphanTransactionsByPrev_def
      process_orphan_def Let_def emit_def IsInvalid_def erase_all_def EraseOrphanTx_def
      report_def reject_msg_def upt_rec

lemma sample_run1: "NetReceiveTxData 3 env1 node1 peerA txP = Returned res1"
  by (simp add: res1_def env1_def sample_defs run_defs)

subsection \<open>The paths of the ingress function and their logs\<close>

lemma NetReceiveTxData_cases:
  assumes "NetReceiveTxData fuel e s xnode t = Returned res"
  obtains
    (gate) "relay_gate e xnode"
      "res = \<lparr>rx_ret = True, rx_node = s, rx_xnode = xnode, rx_txHash = None\<rparr>"
  | (known) s2 where "\<not> relay_gate e xnode" "fst (DoesTxExist e s (GetHash t))"
      "reject_branch e (snd (DoesTxExist e s (GetHash t))) xnode t fresh_state = Returned s2"
      "res = report e s2 xnode t fresh_state []"
  | (accept) "\<not> relay_gate e xnode" "\<not> fst (DoesTxExist e s (GetHash t))"
      "accepted (AcceptToMemoryPool e (pool s) t)"
  | (missing) s3 where "\<not> relay_gate e xnode" "\<not> fst (DoesTxExist e s (GetHash t))"
      "\<not> accepted (AcceptToMemoryPool e (pool s) t)"
      "fMissingInputs (AcceptToMemoryPool e (pool s) t)"
      "missing_branch e
         (emit [CallAcceptToMemoryPool t]
            ((snd (DoesTxExist e s (GetHash t)))\<lparr>pool := newpool (AcceptToMemoryPool e (pool s) t)\<rparr>))
         xnode t = Returned s3"
      "res = report e s3 xnode t (vstate (AcceptToMemoryPool e (pool s) t))
               (removedTxn (AcceptToMemoryPool e (pool s) t))"
  | (invalid) s3 where "\<not> relay_gate e xnode" "\<not> fst (DoesTxExist e s (GetHash t))"
      "\<not> accepted (AcceptToMemoryPool e (pool s) t)"
      "\<not> fMissingInputs (AcceptToMemoryPool e (pool s) t)"
      "reject_branch e
         (emit [CallAcceptToMemoryPool t]
            ((snd (DoesTxExist e s (GetHash t)))\<lparr>pool := newpool (AcceptToMemoryPool e (pool s) t)\<rparr>))
         xnode t (vstate (AcceptToMemoryPool e (pool s) t)) = Returned s3"
      "res = report e s3 xnode t (vstate (AcceptToMemoryPool e (pool s) t))
               (removedTxn (AcceptToMemoryPool e (pool s) t))"
proof (cases "relay_gate e xnode")
  case True
  then have "res = \<lparr>rx_ret = True, rx_node = s, rx_xnode = xnode, rx_txHash = None\<rparr>"
    using assms by (simp add: NetReceiveTxData_def)
  then show ?thesis by (rule gate [OF True])
next
  case g: False
  obtain k sa where d: "DoesTxExist e s (GetHash t) = (k, sa)"
    by (cases "DoesTxExist e s (GetHash t)")
  have pa: "pool sa = pool s"
    using DoesTxExist_fields(2) [of e s "GetHash t"] d by simp
  show ?thesis
  proof (cases k)
    case True
    then obtain s2 where "reject_branch e sa xnode t fresh_state = Returned s2"
      "res = report e s2 xnode t fresh_state []"
      using assms g d by (auto simp: NetReceiveTxData_def split: outcome.splits)
    then show ?thesis using known [of s2] g d True by simp
  next
    case u: False
    show ?thesis
    proof (cases "accepted (AcceptToMemoryPool e (pool s) t)")
      case True
      then show ?thesis using accept g d u by simp
    next
      case na: False
      show ?thesis
      proof (cases "fMissingInputs (AcceptToMemoryPool e (pool s) t)")
        case True
        then obtain s3 where "missing_branch e
           (emit [CallAcceptToMemoryPool t] (sa\<lparr>pool := newpool (AcceptToMemoryPool e (pool s) t)\<rparr>))
           xnode t = Returned s3"
          "res = report e s3 xnode t (vstate (AcceptToMemoryPool e (pool s) t))
               (removedTxn (AcceptToMemoryPool e (pool s) t))"
          using assms g d u na pa
          by (auto simp: NetReceiveTxData_def Let_def split: outcome.splits)
        then show ?thesis using missing [of s3] g d u na True by simp
      next
        case False
        then obtain s3 where "reject_branch e
           (emit [CallAcceptToMemoryPool t] (sa\<lparr>pool := newpool (AcceptToMemoryPool e (pool s) t)\<rparr>))
           xnode t (vstate (AcceptToMemoryPool e (pool s) t)) = Returned s3"
          "res = report e s3 xnode t (vstate (AcceptToMemoryPool e (pool s) t))
               (removedTxn (AcceptToMemoryPool e (pool s) t))"
          using assms g d u na pa
          by (auto simp: NetReceiveTxData_def Let_def split: outcome.splits)
        then show ?thesis using invalid [of s3] g d u na False by simp
      qed
    qed
  qed
qed

lemma reject_branch_calls:
  assumes "reject_branch e s xnode t st = Returned s'"
  shows "calls s' = calls s @
       ((if \<not> HasWitness t \<and> \<not> CorruptionPossible st
         then [RecentRejectsInsert (GetHash t)] else []) @
        (if (HasWitness t \<or> \<not> CorruptionPossible st) \<and> RecursiveDynamicUsage t < 100000
         then [AddToCompactExtraTransactions t] else []) @
        (if IsFlagsBitOn (flags xnode) NF_WHITELIST \<and> whitelistforcerelay e \<and>
            (\<not> IsInvalid st \<or> nDoS st = 0)
         then [BroadcastTransaction (GetHash t)] else []))"
    and "pool s' = pool s" and "orphanTxMgr s' = orphanTxMgr s"
    and "recentRejects s' =
           (if \<not> HasWitness t \<and> \<not> CorruptionPossible st
            then map_option (insert (GetHash t)) (recentRejects s) else recentRejects s)"
    and "hashRecentRejectsChainTip s' = hashRecentRejectsChainTip s"
proof -
  show "calls s' = calls s @
       ((if \<not> HasWitness t \<and> \<not> CorruptionPossible st
         then [RecentRejectsInsert (GetHash t)] else []) @
        (if (HasWitness t \<or> \<not> CorruptionPossible st) \<and> RecursiveDynamicUsage t < 100000
         then [AddToCompactExtraTransactions t] else []) @
        (if IsFlagsBitOn (flags xnode) NF_WHITELIST \<and> whitelistforcerelay e \<and>
            (\<not> IsInvalid st \<or> nDoS st = 0)
         then [BroadcastTransaction (GetHash t)] else []))"
    using assms by (auto simp: reject_branch_def emit_def Let_def split: option.splits if_splits)
  show "pool s' = pool s"
    using assms by (auto simp: reject_branch_def emit_def Let_def split: option.splits if_splits)
  show "orphanTxMgr s' = orphanTxMgr s"
    using assms by (auto simp: reject_branch_def emit_def Let_def split: option.splits if_splits)
  show "recentRejects s' =
           (if \<not> HasWitness t \<and> \<not> CorruptionPossible st
            then map_option (insert (GetHash t)) (recentRejects s) else recentRejects s)"
    using assms by (auto simp: reject_branch_def emit_def Let_def split: option.splits if_splits)
  show "hashRecentRejectsChainTip s' = hashRecentRejectsChainTip s"
    using assms by (auto simp: reject_branch_def emit_def Let_def split: option.splits if_splits)
qed

lemma request_parent_calls:
  "\<exists>es. calls (request_parent e xnode f s txin) = calls s @ es \<and> (\<forall>ev \<in> set es. is_request ev)"
proof -
  let ?h = "op_hash (prevout txin)"
  let ?s1 = "emit [AddTxInventoryKnown (nodeID xnode) ?h f] s"
  obtain k s2 where d: "DoesTxExist e ?s1 ?h = (k, s2)" by (cases "DoesTxExist e ?s1 ?h")
  have c2: "calls s2 = calls s @ [AddTxInventoryKnown (nodeID xnode) ?h f]"
    using DoesTxExist_fields(3) [of e ?s1 ?h] d by (simp add: emit_fields)
  have "request_parent e xnode f s txin =
          (if \<not> k then emit [AskForTransaction (nodeID xnode) ?h f] s2 else s2)"
    using d by (simp add: request_parent_def Let_def)
  then have "calls (request_parent e xnode f s txin) =
      calls s @ ([AddTxInventoryKnown (nodeID xnode) ?h f] @
                 (if \<not> k then [AskForTransaction (nodeID xnode) ?h f] else []))"
    using c2 by (simp add: emit_fields)
  moreover have "\<forall>ev \<in> set ([AddTxInventoryKnown (nodeID xnode) ?h f] @
                 (if \<not> k then [AskForTransaction (nodeID xnode) ?h f] else [])). is_request ev"
    by (simp add: is_request_def)
  ultimately show ?thesis by blast
qed

lemma request_parents_calls:
  "\<exists>es. calls (foldl (request_parent e xnode f) s txins) = calls s @ es \<and>
         (\<forall>ev \<in> set es. is_request ev)"
proof (induction txins arbitrary: s)
  case Nil
  then show ?case by simp
next
  case (Cons txin txins)
  from request_parent_calls [of e xnode f s txin] obtain es1 where
    1: "calls (request_parent e xnode f s txin) = calls s @ es1" "\<forall>ev \<in> set es1. is_request ev"
    by blast
  from Cons.IH [of "request_parent e xnode f s txin"] obtain es2 where
    2: "calls (foldl (request_parent e xnode f) (request_parent e xnode f s txin) txins) =
          calls (request_parent e xnode f s txin) @ es2" "\<forall>ev \<in> set es2. is_request ev"
    by blast
  have "calls (foldl (request_parent e xnode f) s (txin # txins)) = calls s @ (es1 @ es2)"
    using 1(1) 2(1) by simp
  moreover have "\<forall>ev \<in> set (es1 @ es2). is_request ev" using 1(2) 2(2) by auto
  ultimately show ?case by blast
qed

lemma missing_branch_calls:
  assumes "missing_branch e s xnode t = Returned s'"
  shows "(rejected_parents s t = Returned True \<and>
          calls s' = calls s @ [RecentRejectsInsert (GetHash t)]) \<or>
         (rejected_parents s t = Returned False \<and>
          (\<exists>es. calls s' = calls s @ es \<and> (\<forall>ev \<in> set es. is_request ev)))"
proof (cases "rejected_parents s t")
  case (Returned b)
  show ?thesis
  proof (cases b)
    case True
    then have "calls s' = calls s @ [RecentRejectsInsert (GetHash t)]"
      using assms Returned
      by (auto simp: missing_branch_def emit_fields split: option.splits)
    then show ?thesis using Returned True by simp
  next
    case False
    let ?f = "if IsFlagsBitOn (nLocalServices xnode) NODE_WITNESS \<and>
                 IsFlagsBitOn (flags xnode) NF_WITNESS
              then MSG_WITNESS_FLAG else 0"
    have "calls s' = calls (foldl (request_parent e xnode ?f) s (vin t))"
      using assms Returned False
      by (auto simp: missing_branch_def Let_def split: prod.splits)
    then show ?thesis
      using request_parents_calls [of e xnode ?f s "vin t"] Returned False by simp
  qed
next
  case Abort
  then show ?thesis using assms by (simp add: missing_branch_def)
next
  case OutOfFuel
  then show ?thesis using assms by (simp add: missing_branch_def)
qed

subsection \<open>Scoring of orphan peers\<close>

lemma scored_simps:
  "scored [] = {}"
  "scored (MisbehaveNode p d # es) = insert p (scored es)"
  "scored (a @ b) = scored a \<union> scored b"
  by (auto simp: scored_def)

lemma scored_Cons_other:
  "(\<And>p d. ev \<noteq> MisbehaveNode p d) \<Longrightarrow> scored (ev # es) = scored es"
  by (auto simp: scored_def)

lemma scored_once_append:
  "scored_once orph M (a @ b) = (scored_once orph M a \<and> scored_once orph (M \<union> scored a) b)"
  by (induction orph M a rule: scored_once.induct)
     (simp_all add: scored_simps scored_Cons_other)

lemma scored_once_after:
  "scored_once orph M es \<Longrightarrow> p \<in> M \<Longrightarrow>
     (\<forall>d. MisbehaveNode p d \<notin> set es) \<and>
     (\<forall>mi \<in> set orph. fromPeer mi = p \<longrightarrow> CallAcceptToMemoryPool (otx mi) \<notin> set es)"
  by (induction orph M es rule: scored_once.induct) auto

lemma scored_once_neutral:
  "(\<forall>p d. MisbehaveNode p d \<notin> set es) \<Longrightarrow> (\<forall>t. CallAcceptToMemoryPool t \<notin> set es) \<Longrightarrow>
     scored_once orph M es"
  by (induction orph M es rule: scored_once.induct) auto

lemma scored_once_no_score:
  "(\<forall>p d. MisbehaveNode p d \<notin> set es) \<Longrightarrow> scored_once orph {} es"
proof (induction es)
  case Nil
  then show ?case by simp
next
  case (Cons ev es)
  then show ?case by (cases ev) auto
qed

lemma scored_once_fair:
  assumes "scored_once orph {} es" and "es = es1 @ MisbehaveNode p d # es2"
  shows "(\<forall>d'. MisbehaveNode p d' \<notin> set es2) \<and>
         (\<forall>mi \<in> set orph. fromPeer mi = p \<longrightarrow> CallAcceptToMemoryPool (otx mi) \<notin> set es2)"
proof -
  from assms have "scored_once orph (scored es1) (MisbehaveNode p d # es2)"
    by (simp add: scored_once_append)
  then have "scored_once orph (insert p (scored es1)) es2" by simp
  then show ?thesis by (rule scored_once_after) simp
qed

lemma orphan_work_scored_once:
  assumes wf: "distinct (map (\<lambda>x. GetHash (otx x)) (orphanTxMgr s))"
    and run: "orphan_work k e (s, l) = Returned (s', l')"
    and c0: "calls s = base @ es0" and m0: "setMisbehaving l = scored es0"
    and s0: "scored_once (orphanTxMgr s) {} es0"
  shows "\<exists>es. calls s' = base @ es \<and> scored_once (orphanTxMgr s) {} es"
proof -
  define orph where "orph = orphanTxMgr s"
  define I where "I = (\<lambda>a :: node \<times> locals. orphanTxMgr (fst a) = orph \<and>
     (\<exists>es. calls (fst a) = base @ es \<and> scored_once orph {} es \<and>
           setMisbehaving (snd a) = scored es))"
  have same: "fromPeer mi = fromPeer mj" if "mi \<in> set orph" "mj \<in> set orph" "otx mi = otx mj"
    for mi mj
  proof -
    have "GetHash (otx mi) = GetHash (otx mj)" using that(3) by simp
    then have "mi = mj" using wf that(1,2) by (auto simp: orph_def distinct_map inj_on_def)
    then show ?thesis by simp
  qed
  have "I (s', l')"
  proof (rule orphan_work_inv [OF run, where I = I])
    show "I (s, l)" using c0 m0 s0 by (auto simp: I_def orph_def)
  next
    fix a q
    assume "I a"
    then show "I (fst a, (snd a)\<lparr>vWorkQueue := q\<rparr>)" by (simp add: I_def)
  next
    fix mj a b
    assume a: "I a" and mj: "mj \<in> set (orphanTxMgr (fst a))"
      and p: "process_orphan e mj a = Returned b"
    from a obtain es where es: "calls (fst a) = base @ es" "scored_once orph {} es"
      "setMisbehaving (snd a) = scored es" and oa: "orphanTxMgr (fst a) = orph"
      by (auto simp: I_def)
    have mjs: "mj \<in> set orph" using mj oa by simp
    have ob: "orphanTxMgr (fst b) = orph" using process_orphan_orphans [OF p] oa by simp
    obtain sa la sb lb where ab: "a = (sa, la)" "b = (sb, lb)"
      by (cases a, cases b) auto
    have call_ok: "\<forall>mi \<in> set orph. otx mi = otx mj \<longrightarrow> fromPeer mi \<notin> scored es"
      if "fromPeer mj \<notin> setMisbehaving la"
      using that same [OF _ mjs] es(3) ab by auto
    from p [unfolded ab] show "I b"
    proof (cases rule: process_orphan_cases)
      case skip
      then show ?thesis using a ab by simp
    next
      case accept
      let ?new = "[CallAcceptToMemoryPool (otx mj), BroadcastTransaction (GetHash (otx mj)),
                   MempoolCheck]"
      have "calls sb = base @ (es @ ?new)" using accept(3) es(1) ab by simp
      moreover have "scored_once orph {} (es @ ?new)"
        using es(2) call_ok [OF accept(1)] by (simp add: scored_once_append)
      moreover have "setMisbehaving lb = scored (es @ ?new)"
        using accept(5) es(3) ab by (simp add: scored_simps scored_Cons_other)
      ultimately show ?thesis unfolding I_def using ob ab by auto
    next
      case missing
      let ?new = "[CallAcceptToMemoryPool (otx mj), MempoolCheck]"
      have "calls sb = base @ (es @ ?new)" using missing(4) es(1) ab by simp
      moreover have "scored_once orph {} (es @ ?new)"
        using es(2) call_ok [OF missing(1)] by (simp add: scored_once_append)
      moreover have "setMisbehaving lb = scored (es @ ?new)"
        using missing(6) es(3) ab by (simp add: scored_simps scored_Cons_other)
      ultimately show ?thesis unfolding I_def using ob ab by auto
    next
      case invalid
      let ?st = "vstate (AcceptToMemoryPool e (pool sa) (otx mj))"
      let ?new = "[CallAcceptToMemoryPool (otx mj)] @
         (if IsInvalid ?st \<and> nDoS ?st > 0 then [MisbehaveNode (fromPeer mj) (nDoS ?st)] else []) @
         (if \<not> HasWitness (otx mj) \<and> \<not> CorruptionPossible ?st
          then [RecentRejectsInsert (GetHash (otx mj))] else []) @
         [MempoolCheck]"
      have np: "fromPeer mj \<notin> scored es" using invalid(1) es(3) ab by simp
      have "calls sb = base @ (es @ ?new)" using invalid(4) es(1) ab by simp
      moreover have "scored_once orph {} (es @ ?new)"
        using es(2) call_ok [OF invalid(1)] np by (simp add: scored_once_append)
      moreover have "setMisbehaving lb = scored (es @ ?new)"
        using invalid(6) es(3) ab by (simp add: scored_simps scored_Cons_other)
      ultimately show ?thesis unfolding I_def using ob ab by auto
    qed
  qed
  then show ?thesis by (auto simp: I_def orph_def)
qed

lemma report_tail_neutral:
  "(\<forall>p d. MisbehaveNode p d \<notin> set (map AddToCompactExtraTransactions removed @
       (if IsInvalid st then reject_msg e xnode t st else []))) \<and>
   (\<forall>t'. CallAcceptToMemoryPool t' \<notin> set (map AddToCompactExtraTransactions removed @
       (if IsInvalid st then reject_msg e xnode t st else []))) \<and>
   (\<forall>h. RecentRejectsInsert h \<notin> set (map AddToCompactExtraTransactions removed @
       (if IsInvalid st then reject_msg e xnode t st else [])))"
  by (auto simp: reject_msg_def)

lemma is_request_simps:
  "is_request ev \<Longrightarrow> ev \<noteq> MisbehaveNode p d"
  "is_request ev \<Longrightarrow> ev \<noteq> RecentRejectsInsert h"
  "is_request ev \<Longrightarrow> ev \<noteq> CallAcceptToMemoryPool t"
  by (auto simp: is_request_def)

lemma NetReceiveTxData_scored_once:
  assumes wf: "distinct (map (\<lambda>x. GetHash (otx x)) (orphanTxMgr s))"
    and run: "NetReceiveTxData fuel e s xnode t = Returned res"
  shows "\<exists>es. calls (rx_node res) = calls s @ es \<and> scored_once (orphanTxMgr s) {} es"
  using run
proof (cases rule: NetReceiveTxData_cases)
  case gate
  then have "calls (rx_node res) = calls s @ []" by simp
  then show ?thesis by (intro exI [of _ "[]"]) simp
next
  case (known s2)
  let ?tail = "map AddToCompactExtraTransactions [] @
       (if IsInvalid fresh_state then reject_msg e xnode t fresh_state else [])"
  from reject_branch_calls(1) [OF known(3)] obtain es where
    es: "calls s2 = calls s @ es" "\<forall>p d. MisbehaveNode p d \<notin> set es"
    by (auto simp: DoesTxExist_fields)
  have "calls (rx_node res) = calls s @ (es @ ?tail)"
    using es(1) known(4) by (simp add: report_node emit_fields)
  moreover have "\<forall>p d. MisbehaveNode p d \<notin> set (es @ ?tail)"
    using es(2) by (simp add: fresh_state_def IsInvalid_def)
  ultimately show ?thesis using scored_once_no_score by blast
next
  case accept
  let ?r = "AcceptToMemoryPool e (pool s) t"
  let ?s0 = "emit [CallAcceptToMemoryPool t, MempoolCheck, BroadcastTransaction (GetHash t)]
          ((snd (DoesTxExist e s (GetHash t)))\<lparr>pool := newpool ?r\<rparr>)"
  let ?l0 = "\<lparr>vWorkQueue = outpoints_of t, vEraseQueue = [],
         lRemovedTxn = removedTxn ?r, setMisbehaving = {}\<rparr>"
  let ?es0 = "[CallAcceptToMemoryPool t, MempoolCheck, BroadcastTransaction (GetHash t)]"
  from NetReceiveTxData_accept [OF accept run] obtain s2 l2 where
    w: "orphan_work fuel e (?s0, ?l0) = Returned (s2, l2)"
    and res: "rx_node res =
       emit (map AddToCompactExtraTransactions (lRemovedTxn l2) @
             (if IsInvalid (vstate ?r) then reject_msg e xnode t (vstate ?r) else []))
         (s2\<lparr>orphanTxMgr := erase_all (vEraseQueue l2) (orphanTxMgr s2)\<rparr>)"
    by blast
  let ?tail = "map AddToCompactExtraTransactions (lRemovedTxn l2) @
             (if IsInvalid (vstate ?r) then reject_msg e xnode t (vstate ?r) else [])"
  have o0: "orphanTxMgr ?s0 = orphanTxMgr s"
    by (simp add: emit_fields DoesTxExist_fields)
  have c0: "calls ?s0 = calls s @ ?es0"
    by (simp add: emit_fields DoesTxExist_fields)
  have m0: "setMisbehaving ?l0 = scored ?es0"
    by (simp add: scored_def)
  have s0: "scored_once (orphanTxMgr ?s0) {} ?es0" by simp
  from orphan_work_scored_once [OF _ w c0 m0 s0] wf o0
  obtain es where es: "calls s2 = calls s @ es" "scored_once (orphanTxMgr s) {} es"
    by auto
  have "calls (rx_node res) = calls s @ (es @ ?tail)"
    using es(1) by (simp add: res emit_fields)
  moreover have "scored_once (orphanTxMgr s) {} (es @ ?tail)"
    using es(2) report_tail_neutral [of "lRemovedTxn l2" "vstate ?r" e xnode t]
    by (simp only: scored_once_append) (simp add: scored_once_neutral)
  ultimately show ?thesis by blast
next
  case (missing s3)
  let ?r = "AcceptToMemoryPool e (pool s) t"
  let ?sb = "emit [CallAcceptToMemoryPool t]
            ((snd (DoesTxExist e s (GetHash t)))\<lparr>pool := newpool ?r\<rparr>)"
  let ?tail = "map AddToCompactExtraTransactions (removedTxn ?r) @
             (if IsInvalid (vstate ?r) then reject_msg e xnode t (vstate ?r) else [])"
  have cb: "calls ?sb = calls s @ [CallAcceptToMemoryPool t]"
    by (simp add: emit_fields DoesTxExist_fields)
  from missing_branch_calls [OF missing(5)] obtain es where
    es: "calls s3 = calls ?sb @ es" "\<forall>p d. MisbehaveNode p d \<notin> set es"
    using is_request_simps(1) by fastforce
  have "calls (rx_node res) = calls s @ ([CallAcceptToMemoryPool t] @ es @ ?tail)"
    using es(1) cb missing(6) by (simp add: report_node emit_fields)
  moreover have "\<forall>p d. MisbehaveNode p d \<notin> set ([CallAcceptToMemoryPool t] @ es @ ?tail)"
    using es(2) report_tail_neutral [of "removedTxn ?r" "vstate ?r" e xnode t] by simp
  ultimately show ?thesis using scored_once_no_score by blast
next
  case (invalid s3)
  let ?r = "AcceptToMemoryPool e (pool s) t"
  let ?sb = "emit [CallAcceptToMemoryPool t]
            ((snd (DoesTxExist e s (GetHash t)))\<lparr>pool := newpool ?r\<rparr>)"
  let ?tail = "map AddToCompactExtraTransactions (removedTxn ?r) @
             (if IsInvalid (vstate ?r) then reject_msg e xnode t (vstate ?r) else [])"
  have cb: "calls ?sb = calls s @ [CallAcceptToMemoryPool t]"
    by (simp add: emit_fields DoesTxExist_fields)
  from reject_branch_calls(1) [OF invalid(5)] obtain es where
    es: "calls s3 = calls ?sb @ es" "\<forall>p d. MisbehaveNode p d \<notin> set es"
    by auto
  have "calls (rx_node res) = calls s @ ([CallAcceptToMemoryPool t] @ es @ ?tail)"
    using es(1) cb invalid(6) by (simp add: report_node emit_fields)
  moreover have "\<forall>p d. MisbehaveNode p d \<notin> set ([CallAcceptToMemoryPool t] @ es @ ?tail)"
    using es(2) report_tail_neutral [of "removedTxn ?r" "vstate ?r" e xnode t] by simp
  ultimately show ?thesis using scored_once_no_score by blast
qed

subsection \<open>Insertions into the rejects filter\<close>







subsection \<open>A second call with the same transaction\<close>

lemma synced_emit: "synced e (emit es s) = synced e s"
  by (simp add: synced_def emit_fields)

lemma query_rejects_synced:
  "recentRejects s \<noteq> None \<Longrightarrow> synced e (snd (query_rejects e s h))"
  by (auto simp: query_rejects_def synced_def split: option.splits)

lemma query_rejects_on_synced:
  "synced e s \<Longrightarrow> query_rejects e s h = (h \<in> the (recentRejects s), s)"
  by (auto simp: query_rejects_def synced_def split: option.splits)

lemma DoesTxExist_synced:
  "recentRejects s \<noteq> None \<Longrightarrow> synced e (snd (DoesTxExist e s h))"
  by (simp add: DoesTxExist_snd query_rejects_synced)

lemma DoesTxExist_on_synced: "synced e s \<Longrightarrow> snd (DoesTxExist e s h) = s"
  by (simp add: DoesTxExist_snd query_rejects_on_synced)

lemma process_orphan_synced:
  "process_orphan e mi sl = Returned sl' \<Longrightarrow> synced e (fst sl) \<Longrightarrow> synced e (fst sl')"
  by (cases sl)
     (auto simp: process_orphan_def Let_def emit_fields synced_def split: option.splits if_splits)

lemma orphan_work_synced:
  assumes "orphan_work k e sl = Returned sl'" and "synced e (fst sl)"
  shows "synced e (fst sl')"
  by (rule orphan_work_inv [OF assms(1), where I = "\<lambda>a. synced e (fst a)"])
     (use assms(2) in \<open>auto dest: process_orphan_synced\<close>)

lemma request_parent_synced: "synced e s \<Longrightarrow> request_parent e xnode f s txin = s' \<Longrightarrow> synced e s'"
proof -
  assume s: "synced e s" and r: "request_parent e xnode f s txin = s'"
  let ?h = "op_hash (prevout txin)"
  let ?s1 = "emit [AddTxInventoryKnown (nodeID xnode) ?h f] s"
  have s1: "synced e ?s1" using s by (simp add: synced_emit)
  obtain k s2 where d: "DoesTxExist e ?s1 ?h = (k, s2)" by (cases "DoesTxExist e ?s1 ?h")
  have "s2 = ?s1" using DoesTxExist_on_synced [OF s1, of ?h] d by simp
  then have "synced e s2" using s1 by simp
  moreover have "s' = (if \<not> k then emit [AskForTransaction (nodeID xnode) ?h f] s2 else s2)"
    using d r by (simp add: request_parent_def Let_def)
  ultimately show ?thesis by (simp add: synced_emit)
qed

lemma request_parents_synced:
  "synced e s \<Longrightarrow> synced e (foldl (request_parent e xnode f) s txins)"
  by (induction txins arbitrary: s) (auto intro: request_parent_synced)

lemma missing_branch_synced:
  assumes "missing_branch e s xnode t = Returned s'" and "synced e s"
  shows "synced e s'"
proof (cases "rejected_parents s t")
  case (Returned b)
  show ?thesis
  proof (cases b)
    case True
    then show ?thesis using assms Returned
      by (auto simp: missing_branch_def emit_fields synced_def split: option.splits)
  next
    case False
    let ?f = "if IsFlagsBitOn (nLocalServices xnode) NODE_WITNESS \<and>
                 IsFlagsBitOn (flags xnode) NF_WITNESS
              then MSG_WITNESS_FLAG else 0"
    obtain orph where "s' = (foldl (request_parent e xnode ?f) s (vin t))\<lparr>orphanTxMgr := orph\<rparr>"
      using assms(1) Returned False
      by (auto simp: missing_branch_def Let_def split: prod.splits)
    then show ?thesis
      using request_parents_synced [OF assms(2), of xnode ?f "vin t"] by (simp add: synced_def)
  qed
next
  case Abort
  then show ?thesis using assms by (simp add: missing_branch_def)
next
  case OutOfFuel
  then show ?thesis using assms by (simp add: missing_branch_def)
qed

lemma reject_branch_synced:
  assumes "reject_branch e s xnode t st = Returned s'" and "synced e s"
  shows "synced e s'"
  using reject_branch_calls(4,5) [OF assms(1)] assms(2) by (auto simp: synced_def)

lemma first_call_synced:
  assumes "NetReceiveTxData fuel e s xnode t = Returned res"
    and "\<not> relay_gate e xnode" and "recentRejects s \<noteq> None"
  shows "synced e (rx_node res)"
  using assms(1)
proof (cases rule: NetReceiveTxData_cases)
  case gate
  then show ?thesis using assms(2) by simp
next
  case (known s2)
  show ?thesis
    using reject_branch_synced [OF known(3) DoesTxExist_synced [OF assms(3)]] known(4)
    by (simp add: report_node synced_emit)
next
  case accept
  let ?r = "AcceptToMemoryPool e (pool s) t"
  let ?s0 = "emit [CallAcceptToMemoryPool t, MempoolCheck, BroadcastTransaction (GetHash t)]
          ((snd (DoesTxExist e s (GetHash t)))\<lparr>pool := newpool ?r\<rparr>)"
  from NetReceiveTxData_accept [OF accept assms(1)] obtain s2 l2 where
    w: "orphan_work fuel e (?s0,
          \<lparr>vWorkQueue = outpoints_of t, vEraseQueue = [],
           lRemovedTxn = removedTxn ?r, setMisbehaving = {}\<rparr>) = Returned (s2, l2)"
    and res: "rx_node res =
       emit (map AddToCompactExtraTransactions (lRemovedTxn l2) @
             (if IsInvalid (vstate ?r) then reject_msg e xnode t (vstate ?r) else []))
         (s2\<lparr>orphanTxMgr := erase_all (vEraseQueue l2) (orphanTxMgr s2)\<rparr>)"
    by blast
  have "synced e ?s0"
    using DoesTxExist_synced [OF assms(3), of e "GetHash t"] by (simp add: synced_def emit_fields)
  then have "synced e s2" using orphan_work_synced [OF w] by simp
  then show ?thesis by (simp add: res synced_def emit_fields)
next
  case (missing s3)
  have "synced e (emit [CallAcceptToMemoryPool t]
            ((snd (DoesTxExist e s (GetHash t)))\<lparr>pool := newpool (AcceptToMemoryPool e (pool s) t)\<rparr>))"
    using DoesTxExist_synced [OF assms(3), of e "GetHash t"] by (simp add: synced_def emit_fields)
  from missing_branch_synced [OF missing(5) this] show ?thesis
    using missing(6) by (simp add: report_node synced_emit)
next
  case (invalid s3)
  have "synced e (emit [CallAcceptToMemoryPool t]
            ((snd (DoesTxExist e s (GetHash t)))\<lparr>pool := newpool (AcceptToMemoryPool e (pool s) t)\<rparr>))"
    using DoesTxExist_synced [OF assms(3), of e "GetHash t"] by (simp add: synced_def emit_fields)
  from reject_branch_synced [OF invalid(5) this] show ?thesis
    using invalid(6) by (simp add: report_node synced_emit)
qed

lemma known_call:
  assumes "\<not> relay_gate e xnode" and "synced e s" and "recentRejects s = Some rr"
    and "fst (DoesTxExist e s (GetHash t))"
  shows "\<exists>res. NetReceiveTxData fuel e s xnode t = Returned res \<and>
           pool (rx_node res) = pool s \<and> orphanTxMgr (rx_node res) = orphanTxMgr s \<and>
           recentRejects (rx_node res) =
             Some (if HasWitness t then rr else insert (GetHash t) rr)"
proof -
  obtain k sa where d: "DoesTxExist e s (GetHash t) = (k, sa)"
    by (cases "DoesTxExist e s (GetHash t)")
  have sa: "sa = s" using DoesTxExist_on_synced [OF assms(2), of "GetHash t"] d by simp
  have k: k using assms(4) d by simp
  from reject_branch_eq [OF assms(3), of e xnode t fresh_state]
  obtain es where rb: "reject_branch e s xnode t fresh_state =
      Returned (emit es (s\<lparr>recentRejects :=
         Some (if \<not> HasWitness t \<and> \<not> CorruptionPossible fresh_state
               then insert (GetHash t) rr else rr)\<rparr>))"
    by blast
  let ?s2 = "emit es (s\<lparr>recentRejects :=
         Some (if \<not> HasWitness t \<and> \<not> CorruptionPossible fresh_state
               then insert (GetHash t) rr else rr)\<rparr>)"
  have "NetReceiveTxData fuel e s xnode t = Returned (report e ?s2 xnode t fresh_state [])"
    using assms(1) d k sa rb by (simp add: NetReceiveTxData_def)
  moreover have "pool (rx_node (report e ?s2 xnode t fresh_state [])) = pool s"
    by (simp add: report_node emit_fields)
  moreover have "orphanTxMgr (rx_node (report e ?s2 xnode t fresh_state [])) = orphanTxMgr s"
    by (simp add: report_node emit_fields)
  moreover have "recentRejects (rx_node (report e ?s2 xnode t fresh_state [])) =
      Some (if HasWitness t then rr else insert (GetHash t) rr)"
    by (simp add: report_node emit_fields fresh_state_def)
  ultimately show ?thesis by blast
qed

lemma DoesTxExist_again:
  assumes "\<not> fst (DoesTxExist e s h)"
  shows "\<not> fst (DoesTxExist e (emit es (snd (DoesTxExist e s h))) h)"
proof -
  obtain hit sa where q: "query_rejects e s h = (hit, sa)" by (cases "query_rejects e s h")
  have sa: "snd (DoesTxExist e s h) = sa" using q by (simp add: DoesTxExist_snd)
  have nh: "\<not> hit" and nm: "\<not> mempool_exists (pool sa) h" and no: "\<not> orphan_Exists (orphanTxMgr sa) h"
    and nc: "case coinsTip e of None \<Rightarrow> True
             | Some have \<Rightarrow> \<not> (have \<lparr>op_hash = h, op_n = 0\<rparr> \<or> have \<lparr>op_hash = h, op_n = 1\<rparr>)"
    using assms q by (auto simp: DoesTxExist_def split: if_splits option.splits)
  have q2: "query_rejects e (emit es sa) h = (False, emit es sa)"
  proof (cases "recentRejects s")
    case None
    then have "sa = s" using q by (simp add: query_rejects_def)
    then show ?thesis using None by (simp add: query_rejects_def emit_fields)
  next
    case (Some rr)
    then have "synced e sa" using query_rejects_synced [of s e h] q by simp
    then have sy: "synced e (emit es sa)" by (simp add: synced_emit)
    have "h \<notin> the (recentRejects sa)"
      using q nh Some by (auto simp: query_rejects_def split: if_splits)
    then show ?thesis using query_rejects_on_synced [OF sy, of h] by (simp add: emit_fields)
  qed
  have "\<not> fst (DoesTxExist e (emit es sa) h)"
    using q2 nm no nc by (auto simp: DoesTxExist_def emit_fields split: option.splits)
  then show ?thesis unfolding sa .
qed

lemma uncached_call:
  assumes "\<not> relay_gate e xnode"
    and "\<not> fst (DoesTxExist e s (GetHash t))"
    and "\<not> accepted (AcceptToMemoryPool e (pool s) t)"
    and "\<not> fMissingInputs (AcceptToMemoryPool e (pool s) t)"
    and "HasWitness t \<or> CorruptionPossible (vstate (AcceptToMemoryPool e (pool s) t))"
    and "newpool (AcceptToMemoryPool e (pool s) t) = pool s"
  shows "\<exists>res es. NetReceiveTxData fuel e s xnode t = Returned res \<and>
           rx_node res = emit es (snd (DoesTxExist e s (GetHash t)))"
proof -
  let ?r = "AcceptToMemoryPool e (pool s) t"
  obtain k sa where d: "DoesTxExist e s (GetHash t) = (k, sa)"
    by (cases "DoesTxExist e s (GetHash t)")
  have k: "\<not> k" using assms(2) d by simp
  have pa: "pool sa = pool s"
    using DoesTxExist_fields(2) [of e s "GetHash t"] d by simp
  have same: "sa\<lparr>pool := newpool ?r\<rparr> = sa" using assms(6) pa by simp
  let ?sb = "emit [CallAcceptToMemoryPool t] sa"
  let ?L = "(if HasWitness t \<and> RecursiveDynamicUsage t < 100000
             then [AddToCompactExtraTransactions t] else []) @
            (if IsFlagsBitOn (flags xnode) NF_WHITELIST \<and> whitelistforcerelay e \<and>
                (\<not> IsInvalid (vstate ?r) \<or> nDoS (vstate ?r) = 0)
             then [BroadcastTransaction (GetHash t)] else [])"
  have rb: "reject_branch e ?sb xnode t (vstate ?r) = Returned (emit ?L ?sb)"
    using assms(5) by (auto simp: reject_branch_def emit_emit emit_Nil Let_def)
  have run: "NetReceiveTxData fuel e s xnode t =
          Returned (report e (emit ?L ?sb) xnode t (vstate ?r) (removedTxn ?r))"
    using assms(1,3,4) d k pa same rb by (simp add: NetReceiveTxData_def Let_def)
  have "rx_node (report e (emit ?L ?sb) xnode t (vstate ?r) (removedTxn ?r)) =
      emit ([CallAcceptToMemoryPool t] @ ?L @ map AddToCompactExtraTransactions (removedTxn ?r) @
            (if IsInvalid (vstate ?r) then reject_msg e xnode t (vstate ?r) else [])) sa"
    by (simp add: report_node emit_emit)
  with run d show ?thesis by auto
qed

lemma DoesTxExist_rejects_again:
  "recentRejects (snd (DoesTxExist e (emit es (snd (DoesTxExist e s h))) h)) =
     recentRejects (snd (DoesTxExist e s h))"
proof (cases "recentRejects s")
  case None
  then have "snd (query_rejects e s h) = s" by (simp add: query_rejects_def)
  then show ?thesis using None by (simp add: DoesTxExist_snd query_rejects_def emit_fields)
next
  case (Some rr)
  then have "synced e (emit es (snd (DoesTxExist e s h)))"
    using DoesTxExist_synced [of s e h] by (simp add: synced_emit)
  then show ?thesis by (simp add: DoesTxExist_on_synced emit_fields)
qed

lemma uncached_twice:
  assumes "\<not> relay_gate e xnode"
    and "\<not> fst (DoesTxExist e s (GetHash t))"
    and "\<not> accepted (AcceptToMemoryPool e (pool s) t)"
    and "\<not> fMissingInputs (AcceptToMemoryPool e (pool s) t)"
    and "HasWitness t \<or> CorruptionPossible (vstate (AcceptToMemoryPool e (pool s) t))"
    and "newpool (AcceptToMemoryPool e (pool s) t) = pool s"
  shows "\<exists>r1 r2. NetReceiveTxData fuel e s xnode t = Returned r1 \<and>
           NetReceiveTxData fuel2 e (rx_node r1) xnode t = Returned r2 \<and>
           pool (rx_node r2) = pool (rx_node r1) \<and>
           orphanTxMgr (rx_node r2) = orphanTxMgr (rx_node r1) \<and>
           recentRejects (rx_node r2) = recentRejects (rx_node r1)"
proof -
  let ?sa = "snd (DoesTxExist e s (GetHash t))"
  from uncached_call [OF assms, of fuel] obtain r1 es where
    r1: "NetReceiveTxData fuel e s xnode t = Returned r1" "rx_node r1 = emit es ?sa"
    by blast
  let ?s1 = "emit es ?sa"
  have p1: "pool ?s1 = pool s" by (simp add: emit_fields DoesTxExist_fields)
  have u1: "\<not> fst (DoesTxExist e ?s1 (GetHash t))"
    by (rule DoesTxExist_again [OF assms(2)])
  from uncached_call [OF assms(1) u1, of fuel2] assms(3-6) p1 obtain r2 es2 where
    r2: "NetReceiveTxData fuel2 e ?s1 xnode t = Returned r2"
      "rx_node r2 = emit es2 (snd (DoesTxExist e ?s1 (GetHash t)))"
    by auto
  have "pool (rx_node r2) = pool (rx_node r1)"
    by (simp add: r1(2) r2(2) emit_fields DoesTxExist_fields)
  moreover have "orphanTxMgr (rx_node r2) = orphanTxMgr (rx_node r1)"
    by (simp add: r1(2) r2(2) emit_fields DoesTxExist_fields)
  moreover have "recentRejects (rx_node r2) = recentRejects (rx_node r1)"
    by (simp add: r1(2) r2(2) emit_fields DoesTxExist_rejects_again)
  ultimately show ?thesis using r1 r2(1) by auto
qed

lemma known_after_twice:
  assumes "\<not> relay_gate e xnode" and "recentRejects s \<noteq> None"
    and "NetReceiveTxData fuel e s xnode t = Returned r1"
    and "fst (DoesTxExist e (rx_node r1) (GetHash t))"
  shows "\<exists>r2. NetReceiveTxData fuel2 e (rx_node r1) xnode t = Returned r2 \<and>
           pool (rx_node r2) = pool (rx_node r1) \<and>
           orphanTxMgr (rx_node r2) = orphanTxMgr (rx_node r1) \<and>
           recentRejects (rx_node r2) =
             (if HasWitness t then recentRejects (rx_node r1)
              else map_option (insert (GetHash t)) (recentRejects (rx_node r1)))"
proof -
  have sy: "synced e (rx_node r1)" by (rule first_call_synced [OF assms(3,1,2)])
  then obtain rr where rr: "recentRejects (rx_node r1) = Some rr"
    by (auto simp: synced_def)
  from known_call [OF assms(1) sy rr assms(4), of fuel2] show ?thesis
    using rr by auto
qed

lemma first_run_txA: "NetReceiveTxData 1 env0 node0 peerA txA = Returned resA1"
  by (simp add: resA1_def txA_def env0_def node0_def peerA_def sample_atmp_def fresh_state_def
      NetReceiveTxData_def relay_gate_def IsFlagsBitOn_def SetFlagsBit_def
      DoesTxExist_def query_rejects_def mempool_exists_def info_def
      orphan_Exists_def accept_branch_def outpoints_of_def
      FindOrphanTransactionsByPrev_def Let_def emit_def IsInvalid_def
      erase_all_def report_def reject_msg_def)

section \<open>Serving a fetch request: properties\<close>

text \<open>
  Claim C8. A fetch request for a txid in the relay cache sends the cached
  transaction, with the no-witness serialisation flag exactly when the peer does not
  want witness data, and returns true. Otherwise, if the mempool has the txid with an
  entry time not after \<open>timeLastMempoolReq\<close>, the mempool's transaction is sent in the
  same way and true is returned. Otherwise false is returned and nothing is sent.
\<close>

theorem NetRequestTxData_serves:
  "(mapRelay s h = Some t \<longrightarrow>
      NetRequestTxData s xnode h w tlast =
        (True, emit [SendTX (nodeID xnode) (sendVersion xnode)
                       (if w then 0 else SERIALIZE_TRANSACTION_NO_WITNESS) t] s)) \<and>
   (mapRelay s h = None \<longrightarrow> info (pool s) h = Some ti \<longrightarrow> nTime ti \<le> tlast \<longrightarrow>
      NetRequestTxData s xnode h w tlast =
        (True, emit [SendTX (nodeID xnode) (sendVersion xnode)
                       (if w then 0 else SERIALIZE_TRANSACTION_NO_WITNESS) (tx ti)] s)) \<and>
   (mapRelay s h = None \<longrightarrow>
      (info (pool s) h = None \<or> (\<exists>ti. info (pool s) h = Some ti \<and> tlast < nTime ti)) \<longrightarrow>
      NetRequestTxData s xnode h w tlast = (False, s))"
  by (auto simp: NetRequestTxData_def Let_def)

theorem NetRequestTxData_serves_witness:
  "NetRequestTxData (node0\<lparr>mapRelay := [10 \<mapsto> txA]\<rparr>) peerA 10 False 0 =
     (True, emit [SendTX 7 70015 SERIALIZE_TRANSACTION_NO_WITNESS txA]
              (node0\<lparr>mapRelay := [10 \<mapsto> txA]\<rparr>)) \<and>
   NetRequestTxData (node0\<lparr>pool := [\<lparr>tx = txB, nTime = 5, GetFeePerK = 1000\<rparr>]\<rparr>) peerA 11 True 5 =
     (True, emit [SendTX 7 70015 0 txB]
              (node0\<lparr>pool := [\<lparr>tx = txB, nTime = 5, GetFeePerK = 1000\<rparr>]\<rparr>)) \<and>
   NetRequestTxData (node0\<lparr>pool := [\<lparr>tx = txB, nTime = 5, GetFeePerK = 1000\<rparr>]\<rparr>) peerA 11 True 4 =
     (False, node0\<lparr>pool := [\<lparr>tx = txB, nTime = 5, GetFeePerK = 1000\<rparr>]\<rparr>)"
  using
    NetRequestTxData_serves [where s = "node0\<lparr>mapRelay := [10 \<mapsto> txA]\<rparr>" and h = 10
      and t = txA and xnode = peerA and w = False and tlast = 0]
    NetRequestTxData_serves [where s = "node0\<lparr>pool := [\<lparr>tx = txB, nTime = 5, GetFeePerK = 1000\<rparr>]\<rparr>"
      and h = 11 and xnode = peerA and w = True and tlast = 5
      and ti = "\<lparr>tx = txB, nTime = 5, GetFeePerK = 1000\<rparr>"]
    NetRequestTxData_serves [where s = "node0\<lparr>pool := [\<lparr>tx = txB, nTime = 5, GetFeePerK = 1000\<rparr>]\<rparr>"
      and h = 11 and xnode = peerA and w = True and tlast = 4]
  by (simp add: node0_def peerA_def txA_def txB_def info_def)

section \<open>The ingress pipeline: properties\<close>

text \<open>
  Claim C1. A transaction that passes the gate, is not known and for which the
  validator reports missing inputs (without accepting it) is not parked when one of
  its inputs spends a txid that is in the recent-rejects filter (the filter as the
  existence check at the head of the function leaves it): the call returns, the orphan
  pool is as before, the transaction's own txid has been inserted into the filter and
  no \<open>AskForTransaction\<close> has been issued.
\<close>

theorem rejected_parent_not_parked:
  assumes "\<not> relay_gate e xnode"
    and "DoesTxExist e s (GetHash t) = (False, sa)"
    and "\<not> accepted (AcceptToMemoryPool e (pool sa) t)"
    and "fMissingInputs (AcceptToMemoryPool e (pool sa) t)"
    and "recentRejects sa = Some rr"
    and "txin \<in> set (vin t)" and "op_hash (prevout txin) \<in> rr"
  shows "\<exists>r es. NetReceiveTxData fuel e s xnode t = Returned r \<and>
           orphanTxMgr (rx_node r) = orphanTxMgr s \<and>
           recentRejects (rx_node r) = Some (insert (GetHash t) rr) \<and>
           calls (rx_node r) = calls s @ es \<and>
           RecentRejectsInsert (GetHash t) \<in> set es \<and>
           (\<forall>p h f. AskForTransaction p h f \<notin> set es)"
proof -
  define r where "r = AcceptToMemoryPool e (pool sa) t"
  define sb where "sb = emit [CallAcceptToMemoryPool t] (sa\<lparr>pool := newpool r\<rparr>)"
  define sc where "sc = emit [RecentRejectsInsert (GetHash t)]
                          (sb\<lparr>recentRejects := Some (insert (GetHash t) rr)\<rparr>)"
  define es where "es = [CallAcceptToMemoryPool t, RecentRejectsInsert (GetHash t)] @
                     map AddToCompactExtraTransactions (removedTxn r) @
                     (if IsInvalid (vstate r) then reject_msg e xnode t (vstate r) else [])"
  have o: "orphanTxMgr sa = orphanTxMgr s"
    using DoesTxExist_fields(1) [of e s "GetHash t"] assms(2) by simp
  have c: "calls sa = calls s"
    using DoesTxExist_fields(3) [of e s "GetHash t"] assms(2) by simp
  have rb: "recentRejects sb = Some rr"
    using assms(5) by (simp add: sb_def emit_fields)
  have rp: "rejected_parents sb t = Returned True"
    using rb assms(6,7) by (auto simp: rejected_parents_def)
  have mb: "missing_branch e sb xnode t = Returned sc"
    using rp rb by (simp add: missing_branch_def sc_def)
  have run: "NetReceiveTxData fuel e s xnode t =
               Returned (report e sc xnode t (vstate r) (removedTxn r))"
    using assms(1-4) mb by (simp add: NetReceiveTxData_def r_def sb_def Let_def)
  have 1: "orphanTxMgr (rx_node (report e sc xnode t (vstate r) (removedTxn r))) = orphanTxMgr s"
    using o by (simp add: report_node emit_fields sc_def sb_def)
  have 2: "recentRejects (rx_node (report e sc xnode t (vstate r) (removedTxn r))) =
             Some (insert (GetHash t) rr)"
    by (simp add: report_node emit_fields sc_def)
  have 3: "calls (rx_node (report e sc xnode t (vstate r) (removedTxn r))) = calls s @ es"
    using c by (simp add: report_node emit_fields sc_def sb_def es_def)
  have 4: "RecentRejectsInsert (GetHash t) \<in> set es"
    by (simp add: es_def)
  have 5: "\<forall>p h f. AskForTransaction p h f \<notin> set es"
    by (auto simp: es_def reject_msg_def)
  from run 1 2 3 4 5 show ?thesis by blast
qed

theorem rejected_parent_not_parked_witness:
  "\<exists>r es. NetReceiveTxData 0 env0 (node0\<lparr>recentRejects := Some {60}\<rparr>) peerA txO = Returned r \<and>
           orphanTxMgr (rx_node r) = orphanTxMgr (node0\<lparr>recentRejects := Some {60}\<rparr>) \<and>
           recentRejects (rx_node r) = Some (insert (GetHash txO) {60}) \<and>
           calls (rx_node r) = calls (node0\<lparr>recentRejects := Some {60}\<rparr>) @ es \<and>
           RecentRejectsInsert (GetHash txO) \<in> set es \<and>
           (\<forall>p h f. AskForTransaction p h f \<notin> set es)"
proof (rule rejected_parent_not_parked [where sa = "node0\<lparr>recentRejects := Some {60}\<rparr>"
      and rr = "{60}" and txin = "\<lparr>prevout = \<lparr>op_hash = 60, op_n = 0\<rparr>\<rparr>"])
  show "\<not> relay_gate env0 peerA"
    by (simp add: env0_def peerA_def relay_gate_def IsFlagsBitOn_def)
  show "DoesTxExist env0 (node0\<lparr>recentRejects := Some {60}\<rparr>) (GetHash txO) =
          (False, node0\<lparr>recentRejects := Some {60}\<rparr>)"
    by (simp add: env0_def node0_def txO_def DoesTxExist_def query_rejects_def
        mempool_exists_def info_def orphan_Exists_def)
  show "\<not> accepted (AcceptToMemoryPool env0 (pool (node0\<lparr>recentRejects := Some {60}\<rparr>)) txO)"
    by (simp add: env0_def node0_def txO_def sample_atmp_def mempool_exists_def info_def)
  show "fMissingInputs (AcceptToMemoryPool env0 (pool (node0\<lparr>recentRejects := Some {60}\<rparr>)) txO)"
    by (simp add: env0_def node0_def txO_def sample_atmp_def mempool_exists_def info_def)
  show "recentRejects (node0\<lparr>recentRejects := Some {60}\<rparr>) = Some {60}"
    by simp
  show "\<lparr>prevout = \<lparr>op_hash = 60, op_n = 0\<rparr>\<rparr> \<in> set (vin txO)"
    by (simp add: txO_def)
  show "op_hash (prevout \<lparr>prevout = \<lparr>op_hash = 60, op_n = 0\<rparr>\<rparr>) \<in> {60}"
    by simp
qed





text \<open>
  Claim C3. In the calls of one ingress call, over a pool keyed by txid: once
  \<open>MisbehaveNode\<close> has been issued for a peer, the rest of the call issues no further
  \<open>MisbehaveNode\<close> for that peer and validates none of that peer's orphans. So each
  peer is scored at most once for its orphans, and its further orphans are skipped.
\<close>

theorem misbehaving_peer_scored_once:
  assumes "distinct (map (\<lambda>x. GetHash (otx x)) (orphanTxMgr s))"
    and "NetReceiveTxData fuel e s xnode t = Returned res"
  shows "\<exists>es. calls (rx_node res) = calls s @ es \<and>
           (\<forall>es1 p d es2. es = es1 @ MisbehaveNode p d # es2 \<longrightarrow>
              (\<forall>d'. MisbehaveNode p d' \<notin> set es2) \<and>
              (\<forall>mi \<in> set (orphanTxMgr s). fromPeer mi = p \<longrightarrow>
                 CallAcceptToMemoryPool (otx mi) \<notin> set es2))"
proof -
  from NetReceiveTxData_scored_once [OF assms] obtain es where
    es: "calls (rx_node res) = calls s @ es" "scored_once (orphanTxMgr s) {} es"
    by blast
  have "\<forall>es1 p d es2. es = es1 @ MisbehaveNode p d # es2 \<longrightarrow>
              (\<forall>d'. MisbehaveNode p d' \<notin> set es2) \<and>
              (\<forall>mi \<in> set (orphanTxMgr s). fromPeer mi = p \<longrightarrow>
                 CallAcceptToMemoryPool (otx mi) \<notin> set es2)"
    using scored_once_fair [OF es(2)] by blast
  with es(1) show ?thesis by blast
qed

theorem misbehaving_peer_scored_once_witness:
  "NetReceiveTxData 3 env0 node1 peerA txP = Returned res1 \<and>
   calls (rx_node res1) = calls node1 @
     ([CallAcceptToMemoryPool txP, MempoolCheck, BroadcastTransaction 20,
       CallAcceptToMemoryPool (otx orphC), BroadcastTransaction 21, MempoolCheck,
       CallAcceptToMemoryPool (otx orphQ)] @
      MisbehaveNode 8 100 #
      [RecentRejectsInsert 22, MempoolCheck, CallAcceptToMemoryPool (otx orphM), MempoolCheck]) \<and>
   MisbehaveNode 8 100 \<notin> set [RecentRejectsInsert 22, MempoolCheck,
                                CallAcceptToMemoryPool (otx orphM), MempoolCheck] \<and>
   CallAcceptToMemoryPool (otx orphQ2) \<notin> set [RecentRejectsInsert 22, MempoolCheck,
                                CallAcceptToMemoryPool (otx orphM), MempoolCheck]"
proof -
  let ?A = "[CallAcceptToMemoryPool txP, MempoolCheck, BroadcastTransaction 20,
       CallAcceptToMemoryPool (otx orphC), BroadcastTransaction 21, MempoolCheck,
       CallAcceptToMemoryPool (otx orphQ)]"
  let ?B = "[RecentRejectsInsert 22, MempoolCheck, CallAcceptToMemoryPool (otx orphM), MempoolCheck]"
  have wf: "distinct (map (\<lambda>x. GetHash (otx x)) (orphanTxMgr node1))"
    by (simp add: sample_defs)
  from misbehaving_peer_scored_once [OF wf sample_run] obtain es where
    es: "calls (rx_node res1) = calls node1 @ es"
    and fair: "\<forall>es1 p d es2. es = es1 @ MisbehaveNode p d # es2 \<longrightarrow>
              (\<forall>d'. MisbehaveNode p d' \<notin> set es2) \<and>
              (\<forall>mi \<in> set (orphanTxMgr node1). fromPeer mi = p \<longrightarrow>
                 CallAcceptToMemoryPool (otx mi) \<notin> set es2)"
    by blast
  have eq: "es = ?A @ MisbehaveNode 8 100 # ?B"
    using es by (simp add: res1_def node1_def node0_def)
  with fair have F: "(\<forall>d'. MisbehaveNode 8 d' \<notin> set ?B) \<and>
              (\<forall>mi \<in> set (orphanTxMgr node1). fromPeer mi = 8 \<longrightarrow>
                 CallAcceptToMemoryPool (otx mi) \<notin> set ?B)"
    by blast
  have q2: "orphQ2 \<in> set (orphanTxMgr node1)" "fromPeer orphQ2 = 8"
    by (simp_all add: node1_def orphQ2_def)
  from F q2 have "MisbehaveNode 8 100 \<notin> set ?B" "CallAcceptToMemoryPool (otx orphQ2) \<notin> set ?B"
    by blast+
  with sample_run es eq show ?thesis by simp
qed

text \<open>
  Claim C5, as the code has it. The second of two identical calls finds the
  transaction known and takes the block for invalid and known transactions, which
  inserts the txid of a witness-free transaction into the rejects filter. \<open>txA\<close> is
  accepted by the first call (the filter stays empty); the second call puts its txid
  10 into the filter.
\<close>

theorem second_call_inserts_accepted_txid:
  "NetReceiveTxData 1 env0 node0 peerA txA = Returned resA1 \<and>
   NetReceiveTxData 1 env0 (rx_node resA1) peerA txA = Returned resA2 \<and>
   pool (rx_node resA1) = [\<lparr>tx = txA, nTime = 0, GetFeePerK = 1000\<rparr>] \<and>
   recentRejects (rx_node resA1) = Some {} \<and>
   recentRejects (rx_node resA2) = Some {10}"
  by (simp add: resA1_def resA2_def txA_def env0_def node0_def peerA_def sample_atmp_def
      fresh_state_def NetReceiveTxData_def relay_gate_def IsFlagsBitOn_def SetFlagsBit_def
      DoesTxExist_def query_rejects_def mempool_exists_def info_def
      orphan_Exists_def accept_branch_def outpoints_of_def
      FindOrphanTransactionsByPrev_def Let_def emit_def IsInvalid_def
      erase_all_def report_def reject_msg_def reject_branch_def)

text \<open>
  Claim C5, amended. A peer stopped at the gate changes nothing, whether it calls once
  or twice. For a peer that passes the gate, with the filter initialised: when the
  txid is known to the existence oracle after the first call, the second call leaves
  the mempool and the orphan pool as the first call left them, and leaves the filter
  as the first call left it except that the txid itself is inserted when the
  transaction has no witness. When the first call's validation refuses the
  transaction without reporting missing inputs, leaves the mempool as it was, and the
  transaction has a witness or the state has the corruption flag, both calls return
  and the second leaves mempool, orphan pool and filter as the first left them.
\<close>

theorem second_call_effect:
  "(relay_gate e xnode \<longrightarrow>
      NetReceiveTxData fuel e s xnode t =
        Returned \<lparr>rx_ret = True, rx_node = s, rx_xnode = xnode, rx_txHash = None\<rparr>) \<and>
   (\<not> relay_gate e xnode \<longrightarrow> recentRejects s \<noteq> None \<longrightarrow>
    NetReceiveTxData fuel e s xnode t = Returned ra \<longrightarrow>
    fst (DoesTxExist e (rx_node ra) (GetHash t)) \<longrightarrow>
      (\<exists>r2. NetReceiveTxData fuelb e (rx_node ra) xnode t = Returned r2 \<and>
         pool (rx_node r2) = pool (rx_node ra) \<and>
         orphanTxMgr (rx_node r2) = orphanTxMgr (rx_node ra) \<and>
         recentRejects (rx_node r2) =
           (if HasWitness t then recentRejects (rx_node ra)
            else map_option (insert (GetHash t)) (recentRejects (rx_node ra))))) \<and>
   (\<not> relay_gate e xnode \<longrightarrow> \<not> fst (DoesTxExist e s (GetHash t)) \<longrightarrow>
    \<not> accepted (AcceptToMemoryPool e (pool s) t) \<longrightarrow>
    \<not> fMissingInputs (AcceptToMemoryPool e (pool s) t) \<longrightarrow>
    HasWitness t \<or> CorruptionPossible (vstate (AcceptToMemoryPool e (pool s) t)) \<longrightarrow>
    newpool (AcceptToMemoryPool e (pool s) t) = pool s \<longrightarrow>
      (\<exists>r1 r2. NetReceiveTxData fuel e s xnode t = Returned r1 \<and>
         NetReceiveTxData fuelb e (rx_node r1) xnode t = Returned r2 \<and>
         pool (rx_node r2) = pool (rx_node r1) \<and>
         orphanTxMgr (rx_node r2) = orphanTxMgr (rx_node r1) \<and>
         recentRejects (rx_node r2) = recentRejects (rx_node r1)))"
proof (intro conjI)
  show "relay_gate e xnode \<longrightarrow>
      NetReceiveTxData fuel e s xnode t =
        Returned \<lparr>rx_ret = True, rx_node = s, rx_xnode = xnode, rx_txHash = None\<rparr>"
    by (simp add: NetReceiveTxData_def)
  show "\<not> relay_gate e xnode \<longrightarrow> recentRejects s \<noteq> None \<longrightarrow>
    NetReceiveTxData fuel e s xnode t = Returned ra \<longrightarrow>
    fst (DoesTxExist e (rx_node ra) (GetHash t)) \<longrightarrow>
      (\<exists>r2. NetReceiveTxData fuelb e (rx_node ra) xnode t = Returned r2 \<and>
         pool (rx_node r2) = pool (rx_node ra) \<and>
         orphanTxMgr (rx_node r2) = orphanTxMgr (rx_node ra) \<and>
         recentRejects (rx_node r2) =
           (if HasWitness t then recentRejects (rx_node ra)
            else map_option (insert (GetHash t)) (recentRejects (rx_node ra))))"
    by (intro impI) (rule known_after_twice)
  show "\<not> relay_gate e xnode \<longrightarrow> \<not> fst (DoesTxExist e s (GetHash t)) \<longrightarrow>
    \<not> accepted (AcceptToMemoryPool e (pool s) t) \<longrightarrow>
    \<not> fMissingInputs (AcceptToMemoryPool e (pool s) t) \<longrightarrow>
    HasWitness t \<or> CorruptionPossible (vstate (AcceptToMemoryPool e (pool s) t)) \<longrightarrow>
    newpool (AcceptToMemoryPool e (pool s) t) = pool s \<longrightarrow>
      (\<exists>r1 r2. NetReceiveTxData fuel e s xnode t = Returned r1 \<and>
         NetReceiveTxData fuelb e (rx_node r1) xnode t = Returned r2 \<and>
         pool (rx_node r2) = pool (rx_node r1) \<and>
         orphanTxMgr (rx_node r2) = orphanTxMgr (rx_node r1) \<and>
         recentRejects (rx_node r2) = recentRejects (rx_node r1))"
    by (intro impI) (rule uncached_twice)
qed

theorem second_call_effect_witness:
  "NetReceiveTxData 1 env0 node0 peerG txA =
     Returned \<lparr>rx_ret = True, rx_node = node0, rx_xnode = peerG, rx_txHash = None\<rparr> \<and>
   (\<exists>r2. NetReceiveTxData 1 env0 (rx_node resA1) peerA txA = Returned r2 \<and>
      pool (rx_node r2) = pool (rx_node resA1) \<and>
      orphanTxMgr (rx_node r2) = orphanTxMgr (rx_node resA1) \<and>
      recentRejects (rx_node r2) =
        map_option (insert (GetHash txA)) (recentRejects (rx_node resA1))) \<and>
   (\<exists>r1 r2. NetReceiveTxData 1 env0 node0 peerA txBadW = Returned r1 \<and>
      NetReceiveTxData 1 env0 (rx_node r1) peerA txBadW = Returned r2 \<and>
      pool (rx_node r2) = pool (rx_node r1) \<and>
      orphanTxMgr (rx_node r2) = orphanTxMgr (rx_node r1) \<and>
      recentRejects (rx_node r2) = recentRejects (rx_node r1))"
proof (intro conjI)
  have gG: "relay_gate env0 peerG"
    by (simp add: relay_gate_def IsFlagsBitOn_def peerG_def)
  from second_call_effect [where e = env0 and xnode = peerG and fuel = 1 and s = node0
      and t = txA] gG
  show "NetReceiveTxData 1 env0 node0 peerG txA =
     Returned \<lparr>rx_ret = True, rx_node = node0, rx_xnode = peerG, rx_txHash = None\<rparr>"
    by blast
  have gA: "\<not> relay_gate env0 peerA"
    by (simp add: relay_gate_def IsFlagsBitOn_def peerA_def)
  have i: "recentRejects node0 \<noteq> None" by (simp add: node0_def)
  have k: "fst (DoesTxExist env0 (rx_node resA1) (GetHash txA))"
    by (simp add: resA1_def txA_def env0_def node0_def DoesTxExist_def query_rejects_def
        mempool_exists_def info_def)
  have w: "\<not> HasWitness txA" by (simp add: txA_def)
  from second_call_effect [where e = env0 and xnode = peerA and fuel = 1 and fuelb = 1
      and s = node0 and t = txA and ra = resA1] gA i first_run_txA k w
  show "\<exists>r2. NetReceiveTxData 1 env0 (rx_node resA1) peerA txA = Returned r2 \<and>
      pool (rx_node r2) = pool (rx_node resA1) \<and>
      orphanTxMgr (rx_node r2) = orphanTxMgr (rx_node resA1) \<and>
      recentRejects (rx_node r2) =
        map_option (insert (GetHash txA)) (recentRejects (rx_node resA1))"
    by simp
  have u: "\<not> fst (DoesTxExist env0 node0 (GetHash txBadW))"
    by (simp add: txBadW_def env0_def node0_def DoesTxExist_def query_rejects_def
        mempool_exists_def info_def orphan_Exists_def)
  have a: "\<not> accepted (AcceptToMemoryPool env0 (pool node0) txBadW)"
    "\<not> fMissingInputs (AcceptToMemoryPool env0 (pool node0) txBadW)"
    "HasWitness txBadW"
    "newpool (AcceptToMemoryPool env0 (pool node0) txBadW) = pool node0"
    by (simp_all add: txBadW_def env0_def node0_def sample_atmp_def mempool_exists_def info_def)
  from second_call_effect [where e = env0 and xnode = peerA and fuel = 1 and fuelb = 1
      and s = node0 and t = txBadW] gA u a
  show "\<exists>r1 r2. NetReceiveTxData 1 env0 node0 peerA txBadW = Returned r1 \<and>
      NetReceiveTxData 1 env0 (rx_node r1) peerA txBadW = Returned r2 \<and>
      pool (rx_node r2) = pool (rx_node r1) \<and>
      orphanTxMgr (rx_node r2) = orphanTxMgr (rx_node r1) \<and>
      recentRejects (rx_node r2) = recentRejects (rx_node r1)"
    by blast
qed

text \<open>
  Claim C7. With the filter initialised, for a whitelisted peer that passes the gate
  and with \<open>-whitelistforcerelay\<close> on: a transaction that is already known (in
  particular one that is in the mempool) is broadcast and no \<open>REJECT\<close> is sent; a
  transaction that is not known and that the validator refuses without reporting
  missing inputs is broadcast when the validation state is not invalid or its DoS
  score is zero.
\<close>

theorem whitelist_force_relay:
  assumes "\<not> relay_gate e xnode"
    and "IsFlagsBitOn (flags xnode) NF_WHITELIST" and "whitelistforcerelay e"
    and "recentRejects s \<noteq> None"
  shows
    "(fst (DoesTxExist e s (GetHash t)) \<or> mempool_exists (pool s) (GetHash t) \<longrightarrow>
        (\<exists>r es. NetReceiveTxData fuel e s xnode t = Returned r \<and>
           calls (rx_node r) = calls s @ es \<and>
           BroadcastTransaction (GetHash t) \<in> set es \<and>
           (\<forall>p v c m h. SendREJECT p v c m h \<notin> set es))) \<and>
     (\<not> fst (DoesTxExist e s (GetHash t)) \<longrightarrow>
      \<not> accepted (AcceptToMemoryPool e (pool s) t) \<longrightarrow>
      \<not> fMissingInputs (AcceptToMemoryPool e (pool s) t) \<longrightarrow>
      \<not> IsInvalid (vstate (AcceptToMemoryPool e (pool s) t)) \<or>
        nDoS (vstate (AcceptToMemoryPool e (pool s) t)) = 0 \<longrightarrow>
        (\<exists>r es. NetReceiveTxData fuel e s xnode t = Returned r \<and>
           calls (rx_node r) = calls s @ es \<and>
           BroadcastTransaction (GetHash t) \<in> set es))"
proof -
  obtain known sa where d: "DoesTxExist e s (GetHash t) = (known, sa)"
    by (cases "DoesTxExist e s (GetHash t)")
  obtain rr where rr: "recentRejects sa = Some rr"
    using DoesTxExist_initialised [OF assms(4), of e "GetHash t"] d by auto
  have ca: "calls sa = calls s"
    using DoesTxExist_fields(3) [of e s "GetHash t"] d by simp
  have pa: "pool sa = pool s"
    using DoesTxExist_fields(2) [of e s "GetHash t"] d by simp
  define r where "r = AcceptToMemoryPool e (pool s) t"
  define sb where "sb = emit [CallAcceptToMemoryPool t] (sa\<lparr>pool := newpool r\<rparr>)"
  have rb: "recentRejects sb = Some rr" using rr by (simp add: sb_def emit_fields)
  have cb: "calls sb = calls s @ [CallAcceptToMemoryPool t]"
    using ca by (simp add: sb_def emit_fields)
  have A: "\<exists>r es. NetReceiveTxData fuel e s xnode t = Returned r \<and>
           calls (rx_node r) = calls s @ es \<and>
           BroadcastTransaction (GetHash t) \<in> set es \<and>
           (\<forall>p v c m h. SendREJECT p v c m h \<notin> set es)" if known
  proof -
    let ?es = "(if \<not> HasWitness t then [RecentRejectsInsert (GetHash t)] else []) @
        (if RecursiveDynamicUsage t < 100000 then [AddToCompactExtraTransactions t] else []) @
        [BroadcastTransaction (GetHash t)]"
    have "NetReceiveTxData fuel e s xnode t =
            Returned (report e (emit ?es (sa\<lparr>recentRejects :=
               Some (if \<not> HasWitness t then insert (GetHash t) rr else rr)\<rparr>))
               xnode t fresh_state [])"
      using assms(1-3) d that reject_branch_eq [OF rr, of e xnode t fresh_state]
      by (simp add: NetReceiveTxData_def fresh_state_def IsInvalid_def)
    moreover have "calls (rx_node (report e (emit ?es (sa\<lparr>recentRejects :=
               Some (if \<not> HasWitness t then insert (GetHash t) rr else rr)\<rparr>))
               xnode t fresh_state [])) = calls s @ ?es"
      using ca by (simp add: report_node emit_fields fresh_state_def IsInvalid_def)
    moreover have "BroadcastTransaction (GetHash t) \<in> set ?es" by simp
    moreover have "\<forall>p v c m h. SendREJECT p v c m h \<notin> set ?es" by simp
    ultimately show ?thesis by blast
  qed
  have B: "\<exists>r es. NetReceiveTxData fuel e s xnode t = Returned r \<and>
           calls (rx_node r) = calls s @ es \<and>
           BroadcastTransaction (GetHash t) \<in> set es"
    if "\<not> known" "\<not> accepted r" "\<not> fMissingInputs r"
      "\<not> IsInvalid (vstate r) \<or> nDoS (vstate r) = 0"
  proof -
    let ?st = "vstate r"
    let ?es = "(if \<not> HasWitness t \<and> \<not> CorruptionPossible ?st
         then [RecentRejectsInsert (GetHash t)] else []) @
        (if (HasWitness t \<or> \<not> CorruptionPossible ?st) \<and> RecursiveDynamicUsage t < 100000
         then [AddToCompactExtraTransactions t] else []) @
        [BroadcastTransaction (GetHash t)]"
    let ?sc = "emit ?es (sb\<lparr>recentRejects :=
            Some (if \<not> HasWitness t \<and> \<not> CorruptionPossible ?st
                  then insert (GetHash t) rr else rr)\<rparr>)"
    have "reject_branch e sb xnode t ?st = Returned ?sc"
      using reject_branch_eq [OF rb, of e xnode t ?st] assms(2,3) that(4) by simp
    then have "NetReceiveTxData fuel e s xnode t =
            Returned (report e ?sc xnode t ?st (removedTxn r))"
      using assms(1) d that(1-3) pa by (simp add: NetReceiveTxData_def r_def sb_def Let_def)
    moreover have "calls (rx_node (report e ?sc xnode t ?st (removedTxn r))) =
        calls s @ ([CallAcceptToMemoryPool t] @ ?es @
          map AddToCompactExtraTransactions (removedTxn r) @
          (if IsInvalid ?st then reject_msg e xnode t ?st else []))"
      using cb by (simp add: report_node emit_fields)
    moreover have "BroadcastTransaction (GetHash t) \<in> set ([CallAcceptToMemoryPool t] @ ?es @
          map AddToCompactExtraTransactions (removedTxn r) @
          (if IsInvalid ?st then reject_msg e xnode t ?st else []))"
      by simp
    ultimately show ?thesis by blast
  qed
  have "mempool_exists (pool s) (GetHash t) \<Longrightarrow> known"
    using DoesTxExist_mempool [of s "GetHash t" e] d by simp
  then show ?thesis using A B d by (auto simp: r_def)
qed

theorem whitelist_force_relay_witness:
  "(\<exists>r es. NetReceiveTxData 0 env0 nodeA peerW txA = Returned r \<and>
           calls (rx_node r) = calls nodeA @ es \<and>
           BroadcastTransaction (GetHash txA) \<in> set es \<and>
           (\<forall>p v c m h. SendREJECT p v c m h \<notin> set es)) \<and>
   (\<exists>r es. NetReceiveTxData 0 env0 node0 peerW txBig = Returned r \<and>
           calls (rx_node r) = calls node0 @ es \<and>
           BroadcastTransaction (GetHash txBig) \<in> set es)"
proof
  have g: "\<not> relay_gate env0 peerW" "IsFlagsBitOn (flags peerW) NF_WHITELIST"
    "whitelistforcerelay env0"
    by (simp_all add: relay_gate_def IsFlagsBitOn_def peerW_def env0_def)
  have k: "mempool_exists (pool nodeA) (GetHash txA)"
    by (simp add: nodeA_def node0_def txA_def mempool_exists_def info_def)
  have i: "recentRejects nodeA \<noteq> None" "recentRejects node0 \<noteq> None"
    by (simp_all add: nodeA_def node0_def)
  show "\<exists>r es. NetReceiveTxData 0 env0 nodeA peerW txA = Returned r \<and>
           calls (rx_node r) = calls nodeA @ es \<and>
           BroadcastTransaction (GetHash txA) \<in> set es \<and>
           (\<forall>p v c m h. SendREJECT p v c m h \<notin> set es)"
    using whitelist_force_relay [OF g i(1), of txA 0] k by simp
  have u: "\<not> fst (DoesTxExist env0 node0 (GetHash txBig))"
    by (simp add: DoesTxExist_def query_rejects_def node0_def env0_def txBig_def
        mempool_exists_def info_def orphan_Exists_def)
  have a: "\<not> accepted (AcceptToMemoryPool env0 (pool node0) txBig)"
    "\<not> fMissingInputs (AcceptToMemoryPool env0 (pool node0) txBig)"
    "nDoS (vstate (AcceptToMemoryPool env0 (pool node0) txBig)) = 0"
    by (simp_all add: env0_def node0_def txBig_def sample_atmp_def mempool_exists_def info_def)
  show "\<exists>r es. NetReceiveTxData 0 env0 node0 peerW txBig = Returned r \<and>
           calls (rx_node r) = calls node0 @ es \<and>
           BroadcastTransaction (GetHash txBig) \<in> set es"
    using whitelist_force_relay [OF g i(2), of txBig 0] u a by simp
qed

text \<open>
  Claim C9. An orphan whose re-validation reports missing inputs is left untouched.
  For the single re-validation: the loop body returns with nothing changed but the
  mempool the validator leaves, the list of evicted transactions and the log (the
  validation call and the mempool check); the erase queue, the rejects filter and the
  set of misbehaving peers are as before and no \<open>MisbehaveNode\<close> is issued. For the
  whole call that accepts a transaction: an orphan of a pool keyed by txid that the
  validator always answers with missing inputs is still in the pool afterwards, its
  txid has not been inserted into the filter, and its peer has not been scored if all
  of that peer's orphans are of this kind.
\<close>

theorem missing_orphan_left_untouched:
  "(fromPeer mi \<notin> setMisbehaving l \<longrightarrow>
    \<not> accepted (AcceptToMemoryPool e (pool s) (otx mi)) \<longrightarrow>
    fMissingInputs (AcceptToMemoryPool e (pool s) (otx mi)) \<longrightarrow>
      process_orphan e mi (s, l) =
        Returned (emit [CallAcceptToMemoryPool (otx mi), MempoolCheck]
                    (s\<lparr>pool := newpool (AcceptToMemoryPool e (pool s) (otx mi))\<rparr>),
                  l\<lparr>lRemovedTxn :=
                      lRemovedTxn l @ removedTxn (AcceptToMemoryPool e (pool s) (otx mi))\<rparr>)) \<and>
   (\<not> relay_gate e xnode \<longrightarrow>
    \<not> fst (DoesTxExist e s (GetHash t)) \<longrightarrow>
    accepted (AcceptToMemoryPool e (pool s) t) \<longrightarrow>
    distinct (map (\<lambda>x. GetHash (otx x)) (orphanTxMgr s)) \<longrightarrow>
    mi \<in> set (orphanTxMgr s) \<longrightarrow>
    always_missing e mi \<longrightarrow>
    NetReceiveTxData fuel e s xnode t = Returned res \<longrightarrow>
      mi \<in> set (orphanTxMgr (rx_node res)) \<and>
      (\<exists>es. calls (rx_node res) = calls s @ es \<and>
         RecentRejectsInsert (GetHash (otx mi)) \<notin> set es \<and>
         ((\<forall>mj \<in> set (orphanTxMgr s). fromPeer mj = fromPeer mi \<longrightarrow> always_missing e mj) \<longrightarrow>
          (\<forall>d. MisbehaveNode (fromPeer mi) d \<notin> set es))))"
proof (rule conjI)
  show "fromPeer mi \<notin> setMisbehaving l \<longrightarrow>
    \<not> accepted (AcceptToMemoryPool e (pool s) (otx mi)) \<longrightarrow>
    fMissingInputs (AcceptToMemoryPool e (pool s) (otx mi)) \<longrightarrow>
      process_orphan e mi (s, l) =
        Returned (emit [CallAcceptToMemoryPool (otx mi), MempoolCheck]
                    (s\<lparr>pool := newpool (AcceptToMemoryPool e (pool s) (otx mi))\<rparr>),
                  l\<lparr>lRemovedTxn :=
                      lRemovedTxn l @ removedTxn (AcceptToMemoryPool e (pool s) (otx mi))\<rparr>)"
    by (intro impI) (rule process_orphan_missing)
  show "\<not> relay_gate e xnode \<longrightarrow>
    \<not> fst (DoesTxExist e s (GetHash t)) \<longrightarrow>
    accepted (AcceptToMemoryPool e (pool s) t) \<longrightarrow>
    distinct (map (\<lambda>x. GetHash (otx x)) (orphanTxMgr s)) \<longrightarrow>
    mi \<in> set (orphanTxMgr s) \<longrightarrow>
    always_missing e mi \<longrightarrow>
    NetReceiveTxData fuel e s xnode t = Returned res \<longrightarrow>
      mi \<in> set (orphanTxMgr (rx_node res)) \<and>
      (\<exists>es. calls (rx_node res) = calls s @ es \<and>
         RecentRejectsInsert (GetHash (otx mi)) \<notin> set es \<and>
         ((\<forall>mj \<in> set (orphanTxMgr s). fromPeer mj = fromPeer mi \<longrightarrow> always_missing e mj) \<longrightarrow>
          (\<forall>d. MisbehaveNode (fromPeer mi) d \<notin> set es)))"
    by (intro impI) (rule missing_orphan_survives)
qed

theorem missing_orphan_left_untouched_witness:
  "process_orphan env1 orphM
     (node1, \<lparr>vWorkQueue = [], vEraseQueue = [], lRemovedTxn = [], setMisbehaving = {8}\<rparr>) =
     Returned (emit [CallAcceptToMemoryPool (otx orphM), MempoolCheck] node1,
               \<lparr>vWorkQueue = [], vEraseQueue = [], lRemovedTxn = [], setMisbehaving = {8}\<rparr>) \<and>
   NetReceiveTxData 3 env1 node1 peerA txP = Returned res1 \<and>
   orphM \<in> set (orphanTxMgr (rx_node res1)) \<and>
   (\<exists>es. calls (rx_node res1) = calls node1 @ es \<and>
      RecentRejectsInsert (GetHash (otx orphM)) \<notin> set es \<and>
      (\<forall>d. MisbehaveNode (fromPeer orphM) d \<notin> set es))"
proof -
  note T = missing_orphan_left_untouched [where e = env1 and s = node1 and mi = orphM
      and l = "\<lparr>vWorkQueue = [], vEraseQueue = [], lRemovedTxn = [], setMisbehaving = {8}\<rparr>"
      and xnode = peerA and t = txP and fuel = 3 and res = res1]
  have am: "always_missing env1 orphM"
    by (simp add: always_missing_def env1_def orphM_def)
  have 1: "fromPeer orphM \<notin> setMisbehaving
             \<lparr>vWorkQueue = [], vEraseQueue = [], lRemovedTxn = [], setMisbehaving = {8}\<rparr>"
    by (simp add: orphM_def)
  have p: "node1\<lparr>pool := newpool (AcceptToMemoryPool env1 (pool node1) (otx orphM))\<rparr> = node1"
    by (simp add: env1_def orphM_def node1_def node0_def)
  have g: "\<not> relay_gate env1 peerA"
    by (simp add: relay_gate_def IsFlagsBitOn_def peerA_def)
  have u: "\<not> fst (DoesTxExist env1 node1 (GetHash txP))"
    by (simp add: env1_def sample_defs DoesTxExist_def query_rejects_def mempool_exists_def
        info_def orphan_Exists_def)
  have a: "accepted (AcceptToMemoryPool env1 (pool node1) txP)"
    by (simp add: env1_def sample_defs mempool_exists_def info_def)
  have d: "distinct (map (\<lambda>x. GetHash (otx x)) (orphanTxMgr node1))"
    by (simp add: sample_defs)
  have m: "orphM \<in> set (orphanTxMgr node1)"
    by (simp add: node1_def)
  have H: "\<forall>mj \<in> set (orphanTxMgr node1). fromPeer mj = fromPeer orphM \<longrightarrow> always_missing env1 mj"
    using am by (simp add: node1_def orphC_def orphQ_def orphQ2_def orphM_def)
  have rm: "removedTxn (AcceptToMemoryPool env1 (pool node1) (otx orphM)) = []"
    by (simp add: env1_def orphM_def)
  from T am 1 p rm g u a d m H sample_run1 show ?thesis
    by (simp add: always_missing_def)
qed

text \<open>
  Claim C10. \<open>NetReceiveTxData\<close> returns true on every path. With the filter
  initialised and an acyclic orphan pool the call does return (the work-queue loop
  ends, no assertion fails), and whatever it returns, on whichever path (gate,
  acceptance, parking, rejected parents, invalid or known), the return value is true.
\<close>

theorem NetReceiveTxData_always_true:
  assumes "recentRejects s \<noteq> None" and "acyclic_orphans rk (orphanTxMgr s)"
  shows "(\<exists>fuel r. NetReceiveTxData fuel e s xnode t = Returned r) \<and>
         (\<forall>fuel r. NetReceiveTxData fuel e s xnode t = Returned r \<longrightarrow> rx_ret r)"
proof
  obtain known sa where d: "DoesTxExist e s (GetHash t) = (known, sa)"
    by (cases "DoesTxExist e s (GetHash t)")
  have ia: "recentRejects sa \<noteq> None"
    using DoesTxExist_initialised [OF assms(1), of e "GetHash t"] d by simp
  have oa: "orphanTxMgr sa = orphanTxMgr s"
    using DoesTxExist_fields(1) [of e s "GetHash t"] d by simp
  define r where "r = AcceptToMemoryPool e (pool sa) t"
  define sb where "sb = emit [CallAcceptToMemoryPool t] (sa\<lparr>pool := newpool r\<rparr>)"
  have ib: "recentRejects sb \<noteq> None" using ia by (simp add: sb_def emit_fields)
  have ob: "acyclic_orphans rk (orphanTxMgr sb)"
    using assms(2) oa by (simp add: sb_def emit_fields)
  show "\<exists>fuel r. NetReceiveTxData fuel e s xnode t = Returned r"
  proof (cases "relay_gate e xnode")
    case True
    then show ?thesis by (simp add: NetReceiveTxData_def)
  next
    case gate: False
    show ?thesis
    proof (cases known)
      case True
      from reject_branch_returns [OF ia] obtain s' where
        "reject_branch e sa xnode t fresh_state = Returned s'" by blast
      then show ?thesis using gate d True by (simp add: NetReceiveTxData_def)
    next
      case unknown: False
      show ?thesis
      proof (cases "accepted r")
        case True
        from accept_branch_returns [OF ib ob] obtain fuel res where
          "accept_branch fuel e sb xnode t (removedTxn r) = Returned res" by blast
        then have "\<exists>x. NetReceiveTxData fuel e s xnode t = Returned x"
          using gate d unknown True
          by (cases res) (simp add: NetReceiveTxData_def r_def sb_def Let_def)
        then show ?thesis ..
      next
        case rejected: False
        show ?thesis
        proof (cases "fMissingInputs r")
          case True
          from missing_branch_returns [OF ib] obtain s' where
            "missing_branch e sb xnode t = Returned s'" by blast
          then show ?thesis using gate d unknown rejected True
            by (simp add: NetReceiveTxData_def r_def sb_def Let_def)
        next
          case False
          from reject_branch_returns [OF ib] obtain s' where
            "reject_branch e sb xnode t (vstate r) = Returned s'" by blast
          then show ?thesis using gate d unknown rejected False
            by (simp add: NetReceiveTxData_def r_def sb_def Let_def)
        qed
      qed
    qed
  qed
next
  show "\<forall>fuel r. NetReceiveTxData fuel e s xnode t = Returned r \<longrightarrow> rx_ret r"
    by (auto simp: NetReceiveTxData_def report_ret Let_def
        split: prod.splits outcome.splits if_splits)
qed

theorem NetReceiveTxData_always_true_witness:
  "\<exists>fuel r. NetReceiveTxData fuel env0 node1 peerA txP = Returned r \<and> rx_ret r"
proof -
  have i: "recentRejects node1 \<noteq> None"
    by (simp add: node1_def node0_def)
  have a: "acyclic_orphans rank1 (orphanTxMgr node1)"
    by (simp add: acyclic_orphans_def rank1_def sample_defs)
  from NetReceiveTxData_always_true [OF i a, of env0 peerA txP]
  show ?thesis by blast
qed

section \<open>The egress pipeline: properties\<close>

text \<open>
  Claim C4, as the code has it. The expiry loop compares with \<open><\<close>: an entry whose
  expiry time equals the current time stays. Here the entry inserted at time 1000
  expires at \<open>1000 + RELAY_TTL\<close>; the expire step run at exactly that time leaves it in
  the queue and in the map, although its expiry time is \<open>\<le> now\<close>.
\<close>

theorem expire_keeps_entry_due_now:
  "relay_wf (relay_insert 1000 10 txA node0) \<and>
   vRelayExpiration (relay_insert 1000 10 txA node0) = [(1000 + RELAY_TTL, 10)] \<and>
   vRelayExpiration (expire_relay (1000 + RELAY_TTL) (relay_insert 1000 10 txA node0)) =
     [(1000 + RELAY_TTL, 10)] \<and>
   mapRelay (expire_relay (1000 + RELAY_TTL) (relay_insert 1000 10 txA node0)) 10 = Some txA"
  by (simp add: relay_wf_def relay_insert_def expire_relay_def node0_def)

text \<open>
  Claim C4, amended. For a well-formed relay cache (queue in non-decreasing order of
  expiry, one queue entry per key of the map), after the expire step at time \<open>nNow\<close>:
  every entry whose expiry time is before \<open>nNow\<close> is gone from the queue and from the
  map; every entry left in the queue expires at \<open>nNow\<close> or later, was there before and
  keeps its map binding; every key left in the map has such a queue entry; the cache is
  still well formed.
\<close>

theorem expire_removes_older:
  assumes "relay_wf s"
  shows "(\<forall>x \<in> set (vRelayExpiration s). fst x < nNow \<longrightarrow>
            x \<notin> set (vRelayExpiration (expire_relay nNow s)) \<and>
            mapRelay (expire_relay nNow s) (snd x) = None) \<and>
         (\<forall>x \<in> set (vRelayExpiration (expire_relay nNow s)).
            nNow \<le> fst x \<and> x \<in> set (vRelayExpiration s) \<and>
            mapRelay (expire_relay nNow s) (snd x) = mapRelay s (snd x)) \<and>
         (\<forall>h. mapRelay (expire_relay nNow s) h \<noteq> None \<longrightarrow>
            (\<exists>x \<in> set (vRelayExpiration (expire_relay nNow s)). snd x = h \<and> nNow \<le> fst x)) \<and>
         relay_wf (expire_relay nNow s)"
proof -
  let ?q = "vRelayExpiration s"
  let ?P = "\<lambda>x :: int \<times> uint256. fst x < nNow"
  let ?s' = "expire_relay nNow s"
  have srt: "sorted (map fst ?q)" and dst: "distinct (map snd ?q)"
    using assms by (simp_all add: relay_wf_def)
  have wf': "relay_wf ?s'" by (rule relay_wf_expire [OF assms])
  have ge: "nNow \<le> fst x" if "x \<in> set (vRelayExpiration ?s')" for x
    using that sorted_dropWhile_ge [OF srt] by (simp add: expire_relay_fields)
  have 1: "x \<notin> set (vRelayExpiration ?s') \<and> mapRelay ?s' (snd x) = None"
    if "x \<in> set ?q" "fst x < nNow" for x
  proof
    show "x \<notin> set (vRelayExpiration ?s')" using ge [of x] that(2) by auto
    show "mapRelay ?s' (snd x) = None"
      using sorted_takeWhile_all [OF srt that] by (auto simp: expire_relay_fields)
  qed
  have q: "?q = takeWhile ?P ?q @ dropWhile ?P ?q" by simp
  have "distinct (map snd (takeWhile ?P ?q) @ map snd (dropWhile ?P ?q))"
    using dst by (metis map_append q)
  then have disj: "snd ` set (takeWhile ?P ?q) \<inter> snd ` set (dropWhile ?P ?q) = {}"
    by auto
  have 2: "nNow \<le> fst x \<and> x \<in> set ?q \<and> mapRelay ?s' (snd x) = mapRelay s (snd x)"
    if "x \<in> set (vRelayExpiration ?s')" for x
  proof -
    have x: "x \<in> set (dropWhile ?P ?q)" using that by (simp add: expire_relay_fields)
    then have "snd x \<notin> snd ` set (takeWhile ?P ?q)" using disj by auto
    then show ?thesis using ge [OF that] x set_dropWhileD [OF x]
      by (simp add: expire_relay_fields)
  qed
  have 3: "\<exists>x \<in> set (vRelayExpiration ?s'). snd x = h \<and> nNow \<le> fst x"
    if "mapRelay ?s' h \<noteq> None" for h
  proof -
    have "h \<in> dom (mapRelay ?s')" using that by (simp add: dom_def)
    then have "h \<in> snd ` set (vRelayExpiration ?s')" using wf' by (simp add: relay_wf_def)
    then show ?thesis using ge by auto
  qed
  from 1 2 3 wf' show ?thesis by blast
qed

theorem expire_removes_older_witness:
  "(900001000, 10) \<notin> set (vRelayExpiration (expire_relay 900001001 nodeR)) \<and>
   mapRelay (expire_relay 900001001 nodeR) 10 = None \<and>
   (900002000, 11) \<in> set (vRelayExpiration (expire_relay 900001001 nodeR)) \<and>
   mapRelay (expire_relay 900001001 nodeR) 11 = Some txB \<and>
   relay_wf (expire_relay 900001001 nodeR)"
proof -
  have wf: "relay_wf nodeR"
    by (auto simp: nodeR_eq relay_wf_def node0_def)
  have q: "vRelayExpiration (expire_relay 900001001 nodeR) = [(900002000, 11)]"
    by (simp add: nodeR_eq expire_relay_def node0_def)
  have m: "mapRelay nodeR 11 = Some txB"
    by (simp add: nodeR_eq)
  have old: "(900001000, 10) \<in> set (vRelayExpiration nodeR)"
    by (simp add: nodeR_eq)
  from expire_removes_older [OF wf, of 900001001] old q m
  show ?thesis by fastforce
qed

text \<open>
  Claim C6. In the mempool dump (\<open>sendMempool\<close> true) the hashes of the entries that
  pass the fee-rate floor and the optional bloom filter are appended, in order, to
  \<open>haveSentTxHashes\<close> and to the outbound inventory (the \<open>INV\<close> batches already sent,
  followed by what \<open>vInv\<close> still holds). From \<open>toSendTxHashes\<close> the first occurrence of
  the hash of every mempool entry is removed, whether the entry passes or not; so with
  a pending list that has no duplicates none of the advertised hashes is in
  \<open>toSendTxHashes\<close> afterwards.
\<close>

theorem mempool_dump_advertises:
  "haveSentTxHashes (inventory_dump upd xnode True m st) =
     haveSentTxHashes st @
     map (\<lambda>x. GetHash (tx x)) (dump_selected upd m (txFilter st) (pool (eg_node st))) \<and>
   (\<exists>evs. calls (eg_node (inventory_dump upd xnode True m st)) = calls (eg_node st) @ evs \<and>
          inv_hashes evs @ vInv (inventory_dump upd xnode True m st) =
            vInv st @
            map (\<lambda>x. GetHash (tx x)) (dump_selected upd m (txFilter st) (pool (eg_node st)))) \<and>
   toSendTxHashes (inventory_dump upd xnode True m st) =
     foldl (\<lambda>ts x. remove1 (GetHash (tx x)) ts) (toSendTxHashes st) (pool (eg_node st)) \<and>
   (distinct (toSendTxHashes st) \<longrightarrow>
      (\<forall>x \<in> set (dump_selected upd m (txFilter st) (pool (eg_node st))).
         GetHash (tx x) \<notin> set (toSendTxHashes (inventory_dump upd xnode True m st))))"
proof -
  let ?xs = "pool (eg_node st)"
  let ?st' = "foldl (send_mempool_entry upd xnode m) st ?xs"
  have eq: "inventory_dump upd xnode True m st = ?st'"
    by (simp add: inventory_dump_def send_mempool_def)
  have "GetHash (tx x) \<notin> set (toSendTxHashes ?st')"
    if "distinct (toSendTxHashes st)" "x \<in> set (dump_selected upd m (txFilter st) ?xs)" for x
  proof -
    have "x \<in> set ?xs" using that(2) dump_selected_subset by blast
    moreover have "set (toSendTxHashes ?st') = set (toSendTxHashes st) - (\<lambda>x. GetHash (tx x)) ` set ?xs"
      using dump_fold [of upd xnode m st ?xs]
        remove_all_distinct [OF that(1), of "\<lambda>x. GetHash (tx x)" ?xs] by simp
    ultimately show ?thesis by auto
  qed
  then show ?thesis
    unfolding eq using dump_fold [of upd xnode m st ?xs] by blast
qed

theorem mempool_dump_advertises_witness:
  "haveSentTxHashes (inventory_dump sample_bloom peerA True 100 egress0) = [10, 20] \<and>
   vInv (inventory_dump sample_bloom peerA True 100 egress0) = [10, 20] \<and>
   toSendTxHashes (inventory_dump sample_bloom peerA True 100 egress0) = [99] \<and>
   20 \<notin> set (toSendTxHashes (inventory_dump sample_bloom peerA True 100 egress0))"
proof -
  have d: "distinct (toSendTxHashes egress0)"
    by (simp add: egress0_def)
  have sel: "dump_selected sample_bloom 100 (txFilter egress0) (pool (eg_node egress0)) =
               [\<lparr>tx = txA, nTime = 5, GetFeePerK = 1000\<rparr>, \<lparr>tx = txP, nTime = 7, GetFeePerK = 2000\<rparr>]"
    by (simp add: egress0_def node0_def passes_def filter_after_def sample_bloom_def
        txA_def txB_def txP_def)
  have run: "vInv (inventory_dump sample_bloom peerA True 100 egress0) = [10, 20] \<and>
             toSendTxHashes (inventory_dump sample_bloom peerA True 100 egress0) = [99]"
    by (simp add: inventory_dump_def send_mempool_def send_mempool_entry_def advertise_def
        flush_if_full_def MAX_INV_SZ_def egress0_def node0_def sample_bloom_def
        txA_def txB_def txP_def Let_def)
  have h0: "haveSentTxHashes egress0 = []"
    by (simp add: egress0_def)
  note dump = mempool_dump_advertises [of sample_bloom peerA 100 egress0]
  from dump have 1: "haveSentTxHashes (inventory_dump sample_bloom peerA True 100 egress0) = [10, 20]"
    unfolding sel h0 by (simp add: txA_def txP_def)
  from dump d have "\<forall>x \<in> set (dump_selected sample_bloom 100 (txFilter egress0)
                               (pool (eg_node egress0))).
      GetHash (tx x) \<notin> set (toSendTxHashes (inventory_dump sample_bloom peerA True 100 egress0))"
    by blast
  then have 2: "20 \<notin> set (toSendTxHashes (inventory_dump sample_bloom peerA True 100 egress0))"
    unfolding sel by (simp add: txP_def)
  from 1 2 run show ?thesis by simp
qed

end
